theory Spec2Isabelle
  imports Main "HOL-Library.Sublist" "HOL-Library.Code_Target_Nat"
begin

section \<open>Strings of the host language\<close>

text \<open>
  A JavaScript string is a sequence of UTF-16 code units. A code unit is modelled by its
  number, so that the white space above the Latin-1 range (which \<open>trim\<close> and \<open>\s\<close> strip)
  is covered. \<open>str\<close> turns a literal into such a sequence.
\<close>

type_synonym jsstring = "nat list"

definition str :: "string \<Rightarrow> jsstring" where
  "str s = map of_char s"

definition NL :: nat where
  "NL = 10"

text \<open>White space and line terminators of ECMAScript: what \<open>trim()\<close> strips and \<open>\s\<close> matches.\<close>

definition isSpace :: "nat \<Rightarrow> bool" where
  "isSpace c \<longleftrightarrow>
     c = 9 \<or> c = 10 \<or> c = 11 \<or> c = 12 \<or> c = 13 \<or> c = 32 \<or> c = 160 \<or> c = 5760 \<or>
     (8192 \<le> c \<and> c \<le> 8202) \<or> c = 8232 \<or> c = 8233 \<or> c = 8239 \<or> c = 8287 \<or>
     c = 12288 \<or> c = 65279"

text \<open>\<open>\d\<close> and \<open>\w\<close> (without the unicode flag): ASCII only.\<close>

definition isDigit :: "nat \<Rightarrow> bool" where
  "isDigit c \<longleftrightarrow> 48 \<le> c \<and> c \<le> 57"

definition isWord :: "nat \<Rightarrow> bool" where
  "isWord c \<longleftrightarrow> isDigit c \<or> (65 \<le> c \<and> c \<le> 90) \<or> (97 \<le> c \<and> c \<le> 122) \<or> c = 95"

definition trimStart :: "jsstring \<Rightarrow> jsstring" where
  "trimStart s = dropWhile isSpace s"

definition trimEnd :: "jsstring \<Rightarrow> jsstring" where
  "trimEnd s = rev (dropWhile isSpace (rev s))"

definition trim :: "jsstring \<Rightarrow> jsstring" where
  "trim s = trimEnd (trimStart s)"

text \<open>\<open>s.split('\n')\<close>: never the empty list; the empty string gives one empty line.\<close>

fun split :: "jsstring \<Rightarrow> jsstring list" where
  "split [] = [[]]"
| "split (c # cs) =
     (if c = NL then [] # split cs
      else (case split cs of l # ls \<Rightarrow> (c # l) # ls | [] \<Rightarrow> [[c]]))"

text \<open>\<open>lines.join('\n')\<close>.\<close>

fun join :: "jsstring list \<Rightarrow> jsstring" where
  "join [] = []"
| "join [l] = l"
| "join (l # ls) = l @ NL # join ls"

text \<open>\<open>s.startsWith(p)\<close> is \<open>prefix p s\<close>; \<open>s.endsWith(p)\<close> is \<open>suffix p s\<close>.\<close>

definition startsWith :: "jsstring \<Rightarrow> jsstring \<Rightarrow> bool" where
  "startsWith s p = prefix p s"

definition endsWith :: "jsstring \<Rightarrow> jsstring \<Rightarrow> bool" where
  "endsWith s p = suffix p s"

text \<open>
  The test \<open>/^\d{1,2}\.\d{1,2}\.\d{4}$/.test(s)\<close>. A run of one or two digits must be
  followed by a dot, so the run of digits found at each place has to be one or two long;
  \<open>$\<close> (no multiline flag) is the end of the string.
\<close>

definition digits12 :: "jsstring \<Rightarrow> (jsstring \<times> jsstring) option" where
  "digits12 s =
     (let ds = takeWhile isDigit s
      in if length ds = 1 \<or> length ds = 2 then Some (ds, dropWhile isDigit s) else None)"

definition isDateKey :: "jsstring \<Rightarrow> bool" where
  "isDateKey s =
     (case digits12 s of
        None \<Rightarrow> False
      | Some (m, r1) \<Rightarrow>
          (case r1 of
             [] \<Rightarrow> False
           | c1 # r1' \<Rightarrow>
               c1 = 46 \<and>
               (case digits12 r1' of
                  None \<Rightarrow> False
                | Some (d, r2) \<Rightarrow>
                    (case r2 of
                       [] \<Rightarrow> False
                     | c2 # y \<Rightarrow> c2 = 46 \<and> length y = 4 \<and> list_all isDigit y))))"

section \<open>The clock\<close>

text \<open>
  \<open>new Date()\<close> reads the clock of the host. The functions below take what they read from
  it as a parameter: the local calendar date, by the getters the code calls
  (\<open>getMonth\<close> counts from 0, \<open>getDay\<close> is 0 for Sunday).
\<close>

record jsdate =
  getFullYear :: int
  getMonth :: nat
  getDate :: nat
  getDay :: nat

text \<open>Number to string, as a template literal does it for an integer.\<close>

fun showNat :: "nat \<Rightarrow> jsstring" where
  "showNat n = (if n < 10 then [48 + n] else showNat (n div 10) @ [48 + n mod 10])"

declare showNat.simps [simp del]

definition showInt :: "int \<Rightarrow> jsstring" where
  "showInt i = (if i < 0 then 45 # showNat (nat (- i)) else showNat (nat i))"

definition fmtDate :: "jsdate \<Rightarrow> jsstring" where
  "fmtDate d = showNat (getMonth d + 1) @ [46] @ showNat (getDate d) @ [46] @ showInt (getFullYear d)"

section \<open>client/src/utils/textProcessor.ts: the journal\<close>

text \<open>\<open>formatDateHeader\<close>: today as M.D.YYYY.\<close>

definition formatDateHeader :: "jsdate \<Rightarrow> jsstring" where
  "formatDateHeader today = fmtDate today"

definition hasDateHeader :: "jsstring \<Rightarrow> jsstring \<Rightarrow> bool" where
  "hasDateHeader journalContent dateHeader = list_ex (\<lambda>line. trim line = dateHeader) (split journalContent)"

text \<open>\<open>newBullets.some(bullet => DATE.test(bullet.trim()))\<close>.\<close>

definition hasMultipleDates :: "jsstring list \<Rightarrow> bool" where
  "hasMultipleDates newBullets = list_ex (\<lambda>bullet. isDateKey (trim bullet)) newBullets"

text \<open>
  The object \<open>dateEvents\<close> is an association list in insertion order, which is the order
  \<open>Object.entries\<close> gives for keys that are not array indices (a date key holds dots).
\<close>

type_synonym dateEvents = "(jsstring \<times> jsstring list) list"

definition pushEvent :: "dateEvents \<Rightarrow> jsstring \<Rightarrow> jsstring \<Rightarrow> dateEvents" where
  "pushEvent de k e = map (\<lambda>(d, es). if d = k then (d, es @ [e]) else (d, es)) de"

text \<open>
  The loop that parses the new bullets into date sections; \<open>currentDate\<close> starts as the
  empty string, which is falsy.
\<close>

fun parseBullets :: "jsstring \<Rightarrow> dateEvents \<Rightarrow> jsstring list \<Rightarrow> dateEvents" where
  "parseBullets currentDate de [] = de"
| "parseBullets currentDate de (bullet # bs) =
     (let trimmed = trim bullet
      in if isDateKey trimmed
         then parseBullets trimmed (if trimmed \<in> fst ` set de then de else de @ [(trimmed, [])]) bs
         else if startsWith trimmed (str ''- '') \<and> currentDate \<noteq> []
         then parseBullets currentDate (pushEvent de currentDate trimmed) bs
         else parseBullets currentDate de bs)"

text \<open>The first index whose line trims to the date, as the \<open>for\<close> loop and \<open>findIndex\<close> do.\<close>

fun findIndex :: "('a \<Rightarrow> bool) \<Rightarrow> 'a list \<Rightarrow> nat option" where
  "findIndex P [] = None"
| "findIndex P (x # xs) = (if P x then Some 0 else map_option Suc (findIndex P xs))"

text \<open>One round of the loop of \<open>mergeMultiDateContent\<close> over \<open>Object.entries(dateEvents)\<close>.\<close>

definition mergeSection :: "jsstring \<Rightarrow> jsstring \<times> jsstring list \<Rightarrow> jsstring" where
  "mergeSection result de =
     (case de of (date, events) \<Rightarrow>
        if events = [] then result
        else if \<not> hasDateHeader result date
        then (if result \<noteq> [] then result @ [NL, NL] else result) @ date @ [NL] @ join events
        else
          (let lines = split result
           in case findIndex (\<lambda>line. trim line = date) lines of
                None \<Rightarrow> result
              | Some dateIndex \<Rightarrow>
                  (let run = takeWhile (\<lambda>l. startsWith l (str ''- '') \<or> trim l = []) (drop (dateIndex + 1) lines);
                       insertIndex = dateIndex + 1 + length run
                   in join (take insertIndex lines @ events @ drop insertIndex lines))))"

definition mergeMultiDateContent :: "jsstring \<Rightarrow> jsstring list \<Rightarrow> jsstring" where
  "mergeMultiDateContent currentContent newBullets =
     foldl mergeSection (trim currentContent) (parseBullets [] [] newBullets)"

definition appendToJournal :: "jsdate \<Rightarrow> jsstring \<Rightarrow> jsstring list \<Rightarrow> jsstring" where
  "appendToJournal today currentContent newBullets =
     (if newBullets = [] then currentContent
      else if hasMultipleDates newBullets then mergeMultiDateContent currentContent newBullets
      else
        (let dateHeader = formatDateHeader today;
             hasDate = hasDateHeader currentContent dateHeader;
             result = trim currentContent;
             result = (if \<not> hasDate
                       then (if result \<noteq> [] then result @ [NL, NL] else result) @ dateHeader @ [NL]
                       else if result \<noteq> [] \<and> \<not> endsWith result [NL] then result @ [NL]
                       else result)
         in result @ join newBullets))"

text \<open>\<open>overwriteSingleDate\<close>: the section runs to the next line that trims to a date key.\<close>

definition overwriteSingleDate :: "jsdate \<Rightarrow> jsstring \<Rightarrow> jsstring list \<Rightarrow> jsstring \<Rightarrow> jsstring" where
  "overwriteSingleDate today currentContent newBullets dateToOverwrite =
     (let lines = split currentContent
      in case findIndex (\<lambda>line. trim line = dateToOverwrite) lines of
           None \<Rightarrow> appendToJournal today currentContent (dateToOverwrite # newBullets)
         | Some dateIndex \<Rightarrow>
             (let before = take (dateIndex + 1) lines;
                  after = dropWhile (\<lambda>l. \<not> isDateKey (trim l)) (drop (dateIndex + 1) lines)
              in join (before @ newBullets @ after)))"

definition overwriteSection :: "jsdate \<Rightarrow> jsstring list \<Rightarrow> jsstring \<Rightarrow> jsstring \<times> jsstring list \<Rightarrow> jsstring" where
  "overwriteSection today datesToOverwrite result de =
     (case de of (date, events) \<Rightarrow>
        if events = [] then result
        else if date \<in> set datesToOverwrite then overwriteSingleDate today result events date
        else appendToJournal today result (date # events))"

definition overwriteMultiDateContent :: "jsdate \<Rightarrow> jsstring \<Rightarrow> jsstring list \<Rightarrow> jsstring list \<Rightarrow> jsstring" where
  "overwriteMultiDateContent today currentContent newBullets datesToOverwrite =
     foldl (overwriteSection today datesToOverwrite) currentContent (parseBullets [] [] newBullets)"

definition overwriteJournal :: "jsdate \<Rightarrow> jsstring \<Rightarrow> jsstring list \<Rightarrow> jsstring list \<Rightarrow> jsstring" where
  "overwriteJournal today currentContent newBullets datesToOverwrite =
     (if newBullets = [] then currentContent
      else if hasMultipleDates newBullets
      then overwriteMultiDateContent today currentContent newBullets datesToOverwrite
      else
        (let dateHeader = formatDateHeader today
         in if dateHeader \<in> set datesToOverwrite
            then overwriteSingleDate today currentContent newBullets dateHeader
            else appendToJournal today currentContent newBullets))"

text \<open>
  \<open>getAffectedDates\<close>: a \<open>Set\<close> keeps the first insertion of each element, and
  \<open>Array.from\<close> lists it in that order.
\<close>

definition getAffectedDates :: "jsdate \<Rightarrow> jsstring list \<Rightarrow> jsstring list" where
  "getAffectedDates today newBullets =
     (if hasMultipleDates newBullets
      then rev (remdups (rev (filter isDateKey (map trim newBullets))))
      else [formatDateHeader today])"

definition getExistingDates :: "jsstring \<Rightarrow> jsstring list \<Rightarrow> jsstring list" where
  "getExistingDates journalContent affectedDates =
     filter (\<lambda>date. hasDateHeader journalContent date) affectedDates"

text \<open>
  \<open>splitIntoBullets\<close>. The splitter \<open>/\.(?:\s|$)|;|(?:,?\s*(?:and then|then)\s+)/i\<close> tried
  at the start of a string: the length of its match there, if any. The three alternatives
  begin with different characters, so at most one applies; the greedy runs of white space
  are followed by a character that is not white space, so giving some back never helps.
\<close>

definition asciiUpper :: "nat \<Rightarrow> nat" where
  "asciiUpper c = (if 97 \<le> c \<and> c \<le> 122 then c - 32 else c)"

text \<open>
  A literal word of a pattern with the \<open>i\<close> flag at the start of a string. Without the
  unicode flag a code unit above 127 never folds to an ASCII letter, so only the two cases
  of an ASCII letter match it.
\<close>

definition matchWord :: "jsstring \<Rightarrow> jsstring \<Rightarrow> jsstring option" where
  "matchWord w s =
     (if length w \<le> length s \<and> map asciiUpper (take (length w) s) = map asciiUpper w
      then Some (drop (length w) s) else None)"

text \<open>\<open>\s+\<close> at the start of a string: what is left after the run, if the run is not empty.\<close>

definition matchSpaces :: "jsstring \<Rightarrow> jsstring option" where
  "matchSpaces s = (case s of [] \<Rightarrow> None | c # r \<Rightarrow> if isSpace c then Some (dropWhile isSpace r) else None)"

text \<open>A literal word of a pattern without the \<open>i\<close> flag.\<close>

definition matchWordExact :: "jsstring \<Rightarrow> jsstring \<Rightarrow> jsstring option" where
  "matchWordExact w s = (if prefix w s then Some (drop (length w) s) else None)"

definition splitterAt :: "jsstring \<Rightarrow> nat option" where
  "splitterAt s =
     (case s of
        [] \<Rightarrow> None
      | c # r \<Rightarrow>
          if c = 46 then (case r of [] \<Rightarrow> Some 1 | c' # _ \<Rightarrow> if isSpace c' then Some 2 else None)
          else if c = 59 then Some 1
          else
            (let s1 = (if c = 44 then r else s);
                 s2 = dropWhile isSpace s1;
                 w = (case matchWord (str ''and then'') s2 of
                        Some r1 \<Rightarrow> Some r1
                      | None \<Rightarrow> matchWord (str ''then'') s2)
             in case w of
                  None \<Rightarrow> None
                | Some r1 \<Rightarrow>
                    (case matchSpaces r1 of
                       None \<Rightarrow> None
                     | Some r2 \<Rightarrow> Some (length s - length r2))))"

text \<open>
  \<open>text.split(SPLITTER_REGEX)\<close>: from left to right, the splitter is tried at each place;
  where it matches, the piece read so far is closed and the match is skipped.
  \<open>skip\<close> counts the code units of a match still to be passed, \<open>cur\<close> is the piece being
  read, in reverse.
\<close>

fun splitRegex :: "nat \<Rightarrow> jsstring \<Rightarrow> jsstring \<Rightarrow> jsstring list" where
  "splitRegex skip cur [] = [rev cur]"
| "splitRegex (Suc k) cur (c # r) = splitRegex k cur r"
| "splitRegex 0 cur (c # r) =
     (case splitterAt (c # r) of
        Some n \<Rightarrow> rev cur # splitRegex (n - 1) [] r
      | None \<Rightarrow> splitRegex 0 (c # cur) r)"

definition splitIntoBullets :: "jsstring \<Rightarrow> jsstring list" where
  "splitIntoBullets text = filter (\<lambda>bullet. length bullet > 0) (map trim (splitRegex 0 [] text))"

text \<open>
  \<open>PREFIXES_TO_REMOVE\<close>: each of the ten patterns is \<open>^\<close>, then words each followed by
  \<open>\s+\<close>, with the \<open>i\<close> flag; a pattern is given by its words.
\<close>

definition PREFIXES_TO_REMOVE :: "jsstring list list" where
  "PREFIXES_TO_REMOVE =
     [[str ''I''],
      [str ''I'm''],
      [str ''I'', str ''went'', str ''and''],
      [str ''I'', str ''had''],
      [str ''I'', str ''was''],
      [str ''I'', str ''did''],
      [str ''then'', str ''I''],
      [str ''and'', str ''I''],
      [str ''so'', str ''I''],
      [str ''after'', str ''that'', str ''I'']]"

fun matchPrefix :: "jsstring list \<Rightarrow> jsstring \<Rightarrow> jsstring option" where
  "matchPrefix [] s = Some s"
| "matchPrefix (w # ws) s =
     (case matchWord w s of
        None \<Rightarrow> None
      | Some r \<Rightarrow> (case matchSpaces r of None \<Rightarrow> None | Some r' \<Rightarrow> matchPrefix ws r'))"

text \<open>\<open>cleaned.replace(prefix, '')\<close>: the match, if there is one, is removed.\<close>

definition replacePrefix :: "jsstring \<Rightarrow> jsstring list \<Rightarrow> jsstring" where
  "replacePrefix cleaned pat = (case matchPrefix pat cleaned of Some r \<Rightarrow> r | None \<Rightarrow> cleaned)"

text \<open>
  \<open>toUpperCase\<close> and \<open>toLowerCase\<close> are the default case conversions of Unicode, which the
  host takes from its copy of the Unicode Character Database: the simple mappings of
  \<open>UnicodeData.txt\<close>, the unconditional mappings of \<open>SpecialCasing.txt\<close> and its one
  condition that does not depend on the language, \<open>Final_Sigma\<close>. The tables below are
  those of Unicode 14.0. An entry \<open>(lo, hi, step, t)\<close> of a table of simple mappings sends
  every \<open>step\<close>-th code point from \<open>lo\<close> to \<open>hi\<close> to \<open>t\<close>, \<open>t + step\<close>, ...; a code point
  that no entry names is its own image.
\<close>

definition inRange :: "nat \<Rightarrow> nat \<times> nat \<times> nat \<times> nat \<Rightarrow> bool" where
  "inRange c r = (case r of (lo, hi, step, t) \<Rightarrow> lo \<le> c \<and> c \<le> hi \<and> (c - lo) mod step = 0)"

definition simpleCase :: "(nat \<times> nat \<times> nat \<times> nat) list \<Rightarrow> nat \<Rightarrow> nat" where
  "simpleCase table c =
     (case find (inRange c) table of Some (lo, hi, step, t) \<Rightarrow> t + (c - lo) | None \<Rightarrow> c)"

definition asciiLower :: "nat \<Rightarrow> nat" where
  "asciiLower c = (if 65 \<le> c \<and> c \<le> 90 then c + 32 else c)"

text \<open>Upper case, for the code points from 128 to 65535 that have one of a single code unit.\<close>

definition upperRanges :: "(nat \<times> nat \<times> nat \<times> nat) list" where
  "upperRanges =
     [(0xB5, 0xB5, 1, 0x39C), (0xE0, 0xF6, 1, 0xC0), (0xF8, 0xFE, 1, 0xD8),
      (0xFF, 0xFF, 1, 0x178), (0x101, 0x12F, 2, 0x100), (0x131, 0x131, 1, 0x49),
      (0x133, 0x137, 2, 0x132), (0x13A, 0x148, 2, 0x139), (0x14B, 0x177, 2, 0x14A),
      (0x17A, 0x17E, 2, 0x179), (0x17F, 0x17F, 1, 0x53), (0x180, 0x180, 1, 0x243),
      (0x183, 0x185, 2, 0x182), (0x188, 0x188, 1, 0x187), (0x18C, 0x18C, 1, 0x18B),
      (0x192, 0x192, 1, 0x191), (0x195, 0x195, 1, 0x1F6), (0x199, 0x199, 1, 0x198),
      (0x19A, 0x19A, 1, 0x23D), (0x19E, 0x19E, 1, 0x220), (0x1A1, 0x1A5, 2, 0x1A0),
      (0x1A8, 0x1A8, 1, 0x1A7), (0x1AD, 0x1AD, 1, 0x1AC), (0x1B0, 0x1B0, 1, 0x1AF),
      (0x1B4, 0x1B6, 2, 0x1B3), (0x1B9, 0x1B9, 1, 0x1B8), (0x1BD, 0x1BD, 1, 0x1BC),
      (0x1BF, 0x1BF, 1, 0x1F7), (0x1C5, 0x1C5, 1, 0x1C4), (0x1C6, 0x1C6, 1, 0x1C4),
      (0x1C8, 0x1C8, 1, 0x1C7), (0x1C9, 0x1C9, 1, 0x1C7), (0x1CB, 0x1CB, 1, 0x1CA),
      (0x1CC, 0x1CC, 1, 0x1CA), (0x1CE, 0x1DC, 2, 0x1CD), (0x1DD, 0x1DD, 1, 0x18E),
      (0x1DF, 0x1EF, 2, 0x1DE), (0x1F2, 0x1F2, 1, 0x1F1), (0x1F3, 0x1F3, 1, 0x1F1),
      (0x1F5, 0x1F5, 1, 0x1F4), (0x1F9, 0x21F, 2, 0x1F8), (0x223, 0x233, 2, 0x222),
      (0x23C, 0x23C, 1, 0x23B), (0x23F, 0x240, 1, 0x2C7E), (0x242, 0x242, 1, 0x241),
      (0x247, 0x24F, 2, 0x246), (0x250, 0x250, 1, 0x2C6F), (0x251, 0x251, 1, 0x2C6D),
      (0x252, 0x252, 1, 0x2C70), (0x253, 0x253, 1, 0x181), (0x254, 0x254, 1, 0x186),
      (0x256, 0x257, 1, 0x189), (0x259, 0x259, 1, 0x18F), (0x25B, 0x25B, 1, 0x190),
      (0x25C, 0x25C, 1, 0xA7AB), (0x260, 0x260, 1, 0x193), (0x261, 0x261, 1, 0xA7AC),
      (0x263, 0x263, 1, 0x194), (0x265, 0x265, 1, 0xA78D), (0x266, 0x266, 1, 0xA7AA),
      (0x268, 0x268, 1, 0x197), (0x269, 0x269, 1, 0x196), (0x26A, 0x26A, 1, 0xA7AE),
      (0x26B, 0x26B, 1, 0x2C62), (0x26C, 0x26C, 1, 0xA7AD), (0x26F, 0x26F, 1, 0x19C),
      (0x271, 0x271, 1, 0x2C6E), (0x272, 0x272, 1, 0x19D), (0x275, 0x275, 1, 0x19F),
      (0x27D, 0x27D, 1, 0x2C64), (0x280, 0x280, 1, 0x1A6), (0x282, 0x282, 1, 0xA7C5),
      (0x283, 0x283, 1, 0x1A9), (0x287, 0x287, 1, 0xA7B1), (0x288, 0x288, 1, 0x1AE),
      (0x289, 0x289, 1, 0x244), (0x28A, 0x28B, 1, 0x1B1), (0x28C, 0x28C, 1, 0x245),
      (0x292, 0x292, 1, 0x1B7), (0x29D, 0x29D, 1, 0xA7B2), (0x29E, 0x29E, 1, 0xA7B0),
      (0x345, 0x345, 1, 0x399), (0x371, 0x373, 2, 0x370), (0x377, 0x377, 1, 0x376),
      (0x37B, 0x37D, 1, 0x3FD), (0x3AC, 0x3AC, 1, 0x386), (0x3AD, 0x3AF, 1, 0x388),
      (0x3B1, 0x3C1, 1, 0x391), (0x3C2, 0x3C2, 1, 0x3A3), (0x3C3, 0x3CB, 1, 0x3A3),
      (0x3CC, 0x3CC, 1, 0x38C), (0x3CD, 0x3CE, 1, 0x38E), (0x3D0, 0x3D0, 1, 0x392),
      (0x3D1, 0x3D1, 1, 0x398), (0x3D5, 0x3D5, 1, 0x3A6), (0x3D6, 0x3D6, 1, 0x3A0),
      (0x3D7, 0x3D7, 1, 0x3CF), (0x3D9, 0x3EF, 2, 0x3D8), (0x3F0, 0x3F0, 1, 0x39A),
      (0x3F1, 0x3F1, 1, 0x3A1), (0x3F2, 0x3F2, 1, 0x3F9), (0x3F3, 0x3F3, 1, 0x37F),
      (0x3F5, 0x3F5, 1, 0x395), (0x3F8, 0x3F8, 1, 0x3F7), (0x3FB, 0x3FB, 1, 0x3FA),
      (0x430, 0x44F, 1, 0x410), (0x450, 0x45F, 1, 0x400), (0x461, 0x481, 2, 0x460),
      (0x48B, 0x4BF, 2, 0x48A), (0x4C2, 0x4CE, 2, 0x4C1), (0x4CF, 0x4CF, 1, 0x4C0),
      (0x4D1, 0x52F, 2, 0x4D0), (0x561, 0x586, 1, 0x531), (0x10D0, 0x10FA, 1, 0x1C90),
      (0x10FD, 0x10FF, 1, 0x1CBD), (0x13F8, 0x13FD, 1, 0x13F0), (0x1C80, 0x1C80, 1, 0x412),
      (0x1C81, 0x1C81, 1, 0x414), (0x1C82, 0x1C82, 1, 0x41E), (0x1C83, 0x1C84, 1, 0x421),
      (0x1C85, 0x1C85, 1, 0x422), (0x1C86, 0x1C86, 1, 0x42A), (0x1C87, 0x1C87, 1, 0x462),
      (0x1C88, 0x1C88, 1, 0xA64A), (0x1D79, 0x1D79, 1, 0xA77D), (0x1D7D, 0x1D7D, 1, 0x2C63),
      (0x1D8E, 0x1D8E, 1, 0xA7C6), (0x1E01, 0x1E95, 2, 0x1E00), (0x1E9B, 0x1E9B, 1, 0x1E60),
      (0x1EA1, 0x1EFF, 2, 0x1EA0), (0x1F00, 0x1F07, 1, 0x1F08), (0x1F10, 0x1F15, 1, 0x1F18),
      (0x1F20, 0x1F27, 1, 0x1F28), (0x1F30, 0x1F37, 1, 0x1F38), (0x1F40, 0x1F45, 1, 0x1F48),
      (0x1F51, 0x1F57, 2, 0x1F59), (0x1F60, 0x1F67, 1, 0x1F68), (0x1F70, 0x1F71, 1, 0x1FBA),
      (0x1F72, 0x1F75, 1, 0x1FC8), (0x1F76, 0x1F77, 1, 0x1FDA), (0x1F78, 0x1F79, 1, 0x1FF8),
      (0x1F7A, 0x1F7B, 1, 0x1FEA), (0x1F7C, 0x1F7D, 1, 0x1FFA), (0x1FB0, 0x1FB1, 1, 0x1FB8),
      (0x1FBE, 0x1FBE, 1, 0x399), (0x1FD0, 0x1FD1, 1, 0x1FD8), (0x1FE0, 0x1FE1, 1, 0x1FE8),
      (0x1FE5, 0x1FE5, 1, 0x1FEC), (0x214E, 0x214E, 1, 0x2132), (0x2170, 0x217F, 1, 0x2160),
      (0x2184, 0x2184, 1, 0x2183), (0x24D0, 0x24E9, 1, 0x24B6), (0x2C30, 0x2C5F, 1, 0x2C00),
      (0x2C61, 0x2C61, 1, 0x2C60), (0x2C65, 0x2C65, 1, 0x23A), (0x2C66, 0x2C66, 1, 0x23E),
      (0x2C68, 0x2C6C, 2, 0x2C67), (0x2C73, 0x2C73, 1, 0x2C72), (0x2C76, 0x2C76, 1, 0x2C75),
      (0x2C81, 0x2CE3, 2, 0x2C80), (0x2CEC, 0x2CEE, 2, 0x2CEB), (0x2CF3, 0x2CF3, 1, 0x2CF2),
      (0x2D00, 0x2D25, 1, 0x10A0), (0x2D27, 0x2D27, 1, 0x10C7), (0x2D2D, 0x2D2D, 1, 0x10CD),
      (0xA641, 0xA66D, 2, 0xA640), (0xA681, 0xA69B, 2, 0xA680), (0xA723, 0xA72F, 2, 0xA722),
      (0xA733, 0xA76F, 2, 0xA732), (0xA77A, 0xA77C, 2, 0xA779), (0xA77F, 0xA787, 2, 0xA77E),
      (0xA78C, 0xA78C, 1, 0xA78B), (0xA791, 0xA793, 2, 0xA790), (0xA794, 0xA794, 1, 0xA7C4),
      (0xA797, 0xA7A9, 2, 0xA796), (0xA7B5, 0xA7C3, 2, 0xA7B4), (0xA7C8, 0xA7CA, 2, 0xA7C7),
      (0xA7D1, 0xA7D1, 1, 0xA7D0), (0xA7D7, 0xA7D9, 2, 0xA7D6), (0xA7F6, 0xA7F6, 1, 0xA7F5),
      (0xAB53, 0xAB53, 1, 0xA7B3), (0xAB70, 0xABBF, 1, 0x13A0), (0xFF41, 0xFF5A, 1, 0xFF21)]"

text \<open>Upper case of more than one code unit (all in the Basic Multilingual Plane).\<close>

definition upperSpecial :: "(nat \<times> nat list) list" where
  "upperSpecial =
     [(0xDF, [0x53, 0x53]), (0x149, [0x2BC, 0x4E]), (0x1F0, [0x4A, 0x30C]),
      (0x390, [0x399, 0x308, 0x301]), (0x3B0, [0x3A5, 0x308, 0x301]), (0x587, [0x535, 0x552]),
      (0x1E96, [0x48, 0x331]), (0x1E97, [0x54, 0x308]), (0x1E98, [0x57, 0x30A]),
      (0x1E99, [0x59, 0x30A]), (0x1E9A, [0x41, 0x2BE]), (0x1F50, [0x3A5, 0x313]),
      (0x1F52, [0x3A5, 0x313, 0x300]), (0x1F54, [0x3A5, 0x313, 0x301]),
      (0x1F56, [0x3A5, 0x313, 0x342]), (0x1F80, [0x1F08, 0x399]), (0x1F81, [0x1F09, 0x399]),
      (0x1F82, [0x1F0A, 0x399]), (0x1F83, [0x1F0B, 0x399]), (0x1F84, [0x1F0C, 0x399]),
      (0x1F85, [0x1F0D, 0x399]), (0x1F86, [0x1F0E, 0x399]), (0x1F87, [0x1F0F, 0x399]),
      (0x1F88, [0x1F08, 0x399]), (0x1F89, [0x1F09, 0x399]), (0x1F8A, [0x1F0A, 0x399]),
      (0x1F8B, [0x1F0B, 0x399]), (0x1F8C, [0x1F0C, 0x399]), (0x1F8D, [0x1F0D, 0x399]),
      (0x1F8E, [0x1F0E, 0x399]), (0x1F8F, [0x1F0F, 0x399]), (0x1F90, [0x1F28, 0x399]),
      (0x1F91, [0x1F29, 0x399]), (0x1F92, [0x1F2A, 0x399]), (0x1F93, [0x1F2B, 0x399]),
      (0x1F94, [0x1F2C, 0x399]), (0x1F95, [0x1F2D, 0x399]), (0x1F96, [0x1F2E, 0x399]),
      (0x1F97, [0x1F2F, 0x399]), (0x1F98, [0x1F28, 0x399]), (0x1F99, [0x1F29, 0x399]),
      (0x1F9A, [0x1F2A, 0x399]), (0x1F9B, [0x1F2B, 0x399]), (0x1F9C, [0x1F2C, 0x399]),
      (0x1F9D, [0x1F2D, 0x399]), (0x1F9E, [0x1F2E, 0x399]), (0x1F9F, [0x1F2F, 0x399]),
      (0x1FA0, [0x1F68, 0x399]), (0x1FA1, [0x1F69, 0x399]), (0x1FA2, [0x1F6A, 0x399]),
      (0x1FA3, [0x1F6B, 0x399]), (0x1FA4, [0x1F6C, 0x399]), (0x1FA5, [0x1F6D, 0x399]),
      (0x1FA6, [0x1F6E, 0x399]), (0x1FA7, [0x1F6F, 0x399]), (0x1FA8, [0x1F68, 0x399]),
      (0x1FA9, [0x1F69, 0x399]), (0x1FAA, [0x1F6A, 0x399]), (0x1FAB, [0x1F6B, 0x399]),
      (0x1FAC, [0x1F6C, 0x399]), (0x1FAD, [0x1F6D, 0x399]), (0x1FAE, [0x1F6E, 0x399]),
      (0x1FAF, [0x1F6F, 0x399]), (0x1FB2, [0x1FBA, 0x399]), (0x1FB3, [0x391, 0x399]),
      (0x1FB4, [0x386, 0x399]), (0x1FB6, [0x391, 0x342]), (0x1FB7, [0x391, 0x342, 0x399]),
      (0x1FBC, [0x391, 0x399]), (0x1FC2, [0x1FCA, 0x399]), (0x1FC3, [0x397, 0x399]),
      (0x1FC4, [0x389, 0x399]), (0x1FC6, [0x397, 0x342]), (0x1FC7, [0x397, 0x342, 0x399]),
      (0x1FCC, [0x397, 0x399]), (0x1FD2, [0x399, 0x308, 0x300]), (0x1FD3, [0x399, 0x308, 0x301]),
      (0x1FD6, [0x399, 0x342]), (0x1FD7, [0x399, 0x308, 0x342]), (0x1FE2, [0x3A5, 0x308, 0x300]),
      (0x1FE3, [0x3A5, 0x308, 0x301]), (0x1FE4, [0x3A1, 0x313]), (0x1FE6, [0x3A5, 0x342]),
      (0x1FE7, [0x3A5, 0x308, 0x342]), (0x1FF2, [0x1FFA, 0x399]), (0x1FF3, [0x3A9, 0x399]),
      (0x1FF4, [0x38F, 0x399]), (0x1FF6, [0x3A9, 0x342]), (0x1FF7, [0x3A9, 0x342, 0x399]),
      (0x1FFC, [0x3A9, 0x399]), (0xFB00, [0x46, 0x46]), (0xFB01, [0x46, 0x49]),
      (0xFB02, [0x46, 0x4C]), (0xFB03, [0x46, 0x46, 0x49]), (0xFB04, [0x46, 0x46, 0x4C]),
      (0xFB05, [0x53, 0x54]), (0xFB06, [0x53, 0x54]), (0xFB13, [0x544, 0x546]),
      (0xFB14, [0x544, 0x535]), (0xFB15, [0x544, 0x53B]), (0xFB16, [0x54E, 0x546]),
      (0xFB17, [0x544, 0x53D])]"

text \<open>
  \<open>cleaned.charAt(0).toUpperCase()\<close>: upper case of a string of one code unit. A lone
  surrogate is in no table and stays.
\<close>

definition toUpperCase1 :: "nat \<Rightarrow> jsstring" where
  "toUpperCase1 c =
     (if c < 128 then [asciiUpper c]
      else (case map_of upperSpecial c of
              Some s \<Rightarrow> s
            | None \<Rightarrow> [simpleCase upperRanges c]))"

text \<open>Lower case, for the code points from 128 on; all of them have one of a single code point
  but U+0130, which becomes \<open>i\<close> and U+0307.\<close>

definition lowerRanges :: "(nat \<times> nat \<times> nat \<times> nat) list" where
  "lowerRanges =
     [(0xC0, 0xD6, 1, 0xE0), (0xD8, 0xDE, 1, 0xF8), (0x100, 0x12E, 2, 0x101),
      (0x132, 0x136, 2, 0x133), (0x139, 0x147, 2, 0x13A), (0x14A, 0x176, 2, 0x14B),
      (0x178, 0x178, 1, 0xFF), (0x179, 0x17D, 2, 0x17A), (0x181, 0x181, 1, 0x253),
      (0x182, 0x184, 2, 0x183), (0x186, 0x186, 1, 0x254), (0x187, 0x187, 1, 0x188),
      (0x189, 0x18A, 1, 0x256), (0x18B, 0x18B, 1, 0x18C), (0x18E, 0x18E, 1, 0x1DD),
      (0x18F, 0x18F, 1, 0x259), (0x190, 0x190, 1, 0x25B), (0x191, 0x191, 1, 0x192),
      (0x193, 0x193, 1, 0x260), (0x194, 0x194, 1, 0x263), (0x196, 0x196, 1, 0x269),
      (0x197, 0x197, 1, 0x268), (0x198, 0x198, 1, 0x199), (0x19C, 0x19C, 1, 0x26F),
      (0x19D, 0x19D, 1, 0x272), (0x19F, 0x19F, 1, 0x275), (0x1A0, 0x1A4, 2, 0x1A1),
      (0x1A6, 0x1A6, 1, 0x280), (0x1A7, 0x1A7, 1, 0x1A8), (0x1A9, 0x1A9, 1, 0x283),
      (0x1AC, 0x1AC, 1, 0x1AD), (0x1AE, 0x1AE, 1, 0x288), (0x1AF, 0x1AF, 1, 0x1B0),
      (0x1B1, 0x1B2, 1, 0x28A), (0x1B3, 0x1B5, 2, 0x1B4), (0x1B7, 0x1B7, 1, 0x292),
      (0x1B8, 0x1B8, 1, 0x1B9), (0x1BC, 0x1BC, 1, 0x1BD), (0x1C4, 0x1C4, 1, 0x1C6),
      (0x1C5, 0x1C5, 1, 0x1C6), (0x1C7, 0x1C7, 1, 0x1C9), (0x1C8, 0x1C8, 1, 0x1C9),
      (0x1CA, 0x1CA, 1, 0x1CC), (0x1CB, 0x1DB, 2, 0x1CC), (0x1DE, 0x1EE, 2, 0x1DF),
      (0x1F1, 0x1F1, 1, 0x1F3), (0x1F2, 0x1F4, 2, 0x1F3), (0x1F6, 0x1F6, 1, 0x195),
      (0x1F7, 0x1F7, 1, 0x1BF), (0x1F8, 0x21E, 2, 0x1F9), (0x220, 0x220, 1, 0x19E),
      (0x222, 0x232, 2, 0x223), (0x23A, 0x23A, 1, 0x2C65), (0x23B, 0x23B, 1, 0x23C),
      (0x23D, 0x23D, 1, 0x19A), (0x23E, 0x23E, 1, 0x2C66), (0x241, 0x241, 1, 0x242),
      (0x243, 0x243, 1, 0x180), (0x244, 0x244, 1, 0x289), (0x245, 0x245, 1, 0x28C),
      (0x246, 0x24E, 2, 0x247), (0x370, 0x372, 2, 0x371), (0x376, 0x376, 1, 0x377),
      (0x37F, 0x37F, 1, 0x3F3), (0x386, 0x386, 1, 0x3AC), (0x388, 0x38A, 1, 0x3AD),
      (0x38C, 0x38C, 1, 0x3CC), (0x38E, 0x38F, 1, 0x3CD), (0x391, 0x3A1, 1, 0x3B1),
      (0x3A3, 0x3AB, 1, 0x3C3), (0x3CF, 0x3CF, 1, 0x3D7), (0x3D8, 0x3EE, 2, 0x3D9),
      (0x3F4, 0x3F4, 1, 0x3B8), (0x3F7, 0x3F7, 1, 0x3F8), (0x3F9, 0x3F9, 1, 0x3F2),
      (0x3FA, 0x3FA, 1, 0x3FB), (0x3FD, 0x3FF, 1, 0x37B), (0x400, 0x40F, 1, 0x450),
      (0x410, 0x42F, 1, 0x430), (0x460, 0x480, 2, 0x461), (0x48A, 0x4BE, 2, 0x48B),
      (0x4C0, 0x4C0, 1, 0x4CF), (0x4C1, 0x4CD, 2, 0x4C2), (0x4D0, 0x52E, 2, 0x4D1),
      (0x531, 0x556, 1, 0x561), (0x10A0, 0x10C5, 1, 0x2D00), (0x10C7, 0x10C7, 1, 0x2D27),
      (0x10CD, 0x10CD, 1, 0x2D2D), (0x13A0, 0x13EF, 1, 0xAB70), (0x13F0, 0x13F5, 1, 0x13F8),
      (0x1C90, 0x1CBA, 1, 0x10D0), (0x1CBD, 0x1CBF, 1, 0x10FD), (0x1E00, 0x1E94, 2, 0x1E01),
      (0x1E9E, 0x1E9E, 1, 0xDF), (0x1EA0, 0x1EFE, 2, 0x1EA1), (0x1F08, 0x1F0F, 1, 0x1F00),
      (0x1F18, 0x1F1D, 1, 0x1F10), (0x1F28, 0x1F2F, 1, 0x1F20), (0x1F38, 0x1F3F, 1, 0x1F30),
      (0x1F48, 0x1F4D, 1, 0x1F40), (0x1F59, 0x1F5F, 2, 0x1F51), (0x1F68, 0x1F6F, 1, 0x1F60),
      (0x1F88, 0x1F8F, 1, 0x1F80), (0x1F98, 0x1F9F, 1, 0x1F90), (0x1FA8, 0x1FAF, 1, 0x1FA0),
      (0x1FB8, 0x1FB9, 1, 0x1FB0), (0x1FBA, 0x1FBB, 1, 0x1F70), (0x1FBC, 0x1FBC, 1, 0x1FB3),
      (0x1FC8, 0x1FCB, 1, 0x1F72), (0x1FCC, 0x1FCC, 1, 0x1FC3), (0x1FD8, 0x1FD9, 1, 0x1FD0),
      (0x1FDA, 0x1FDB, 1, 0x1F76), (0x1FE8, 0x1FE9, 1, 0x1FE0), (0x1FEA, 0x1FEB, 1, 0x1F7A),
      (0x1FEC, 0x1FEC, 1, 0x1FE5), (0x1FF8, 0x1FF9, 1, 0x1F78), (0x1FFA, 0x1FFB, 1, 0x1F7C),
      (0x1FFC, 0x1FFC, 1, 0x1FF3), (0x2126, 0x2126, 1, 0x3C9), (0x212A, 0x212A, 1, 0x6B),
      (0x212B, 0x212B, 1, 0xE5), (0x2132, 0x2132, 1, 0x214E), (0x2160, 0x216F, 1, 0x2170),
      (0x2183, 0x2183, 1, 0x2184), (0x24B6, 0x24CF, 1, 0x24D0), (0x2C00, 0x2C2F, 1, 0x2C30),
      (0x2C60, 0x2C60, 1, 0x2C61), (0x2C62, 0x2C62, 1, 0x26B), (0x2C63, 0x2C63, 1, 0x1D7D),
      (0x2C64, 0x2C64, 1, 0x27D), (0x2C67, 0x2C6B, 2, 0x2C68), (0x2C6D, 0x2C6D, 1, 0x251),
      (0x2C6E, 0x2C6E, 1, 0x271), (0x2C6F, 0x2C6F, 1, 0x250), (0x2C70, 0x2C70, 1, 0x252),
      (0x2C72, 0x2C72, 1, 0x2C73), (0x2C75, 0x2C75, 1, 0x2C76), (0x2C7E, 0x2C7F, 1, 0x23F),
      (0x2C80, 0x2CE2, 2, 0x2C81), (0x2CEB, 0x2CED, 2, 0x2CEC), (0x2CF2, 0x2CF2, 1, 0x2CF3),
      (0xA640, 0xA66C, 2, 0xA641), (0xA680, 0xA69A, 2, 0xA681), (0xA722, 0xA72E, 2, 0xA723),
      (0xA732, 0xA76E, 2, 0xA733), (0xA779, 0xA77B, 2, 0xA77A), (0xA77D, 0xA77D, 1, 0x1D79),
      (0xA77E, 0xA786, 2, 0xA77F), (0xA78B, 0xA78B, 1, 0xA78C), (0xA78D, 0xA78D, 1, 0x265),
      (0xA790, 0xA792, 2, 0xA791), (0xA796, 0xA7A8, 2, 0xA797), (0xA7AA, 0xA7AA, 1, 0x266),
      (0xA7AB, 0xA7AB, 1, 0x25C), (0xA7AC, 0xA7AC, 1, 0x261), (0xA7AD, 0xA7AD, 1, 0x26C),
      (0xA7AE, 0xA7AE, 1, 0x26A), (0xA7B0, 0xA7B0, 1, 0x29E), (0xA7B1, 0xA7B1, 1, 0x287),
      (0xA7B2, 0xA7B2, 1, 0x29D), (0xA7B3, 0xA7B3, 1, 0xAB53), (0xA7B4, 0xA7C2, 2, 0xA7B5),
      (0xA7C4, 0xA7C4, 1, 0xA794), (0xA7C5, 0xA7C5, 1, 0x282), (0xA7C6, 0xA7C6, 1, 0x1D8E),
      (0xA7C7, 0xA7C9, 2, 0xA7C8), (0xA7D0, 0xA7D0, 1, 0xA7D1), (0xA7D6, 0xA7D8, 2, 0xA7D7),
      (0xA7F5, 0xA7F5, 1, 0xA7F6), (0xFF21, 0xFF3A, 1, 0xFF41), (0x10400, 0x10427, 1, 0x10428),
      (0x104B0, 0x104D3, 1, 0x104D8), (0x10570, 0x1057A, 1, 0x10597),
      (0x1057C, 0x1058A, 1, 0x105A3), (0x1058C, 0x10592, 1, 0x105B3),
      (0x10594, 0x10595, 1, 0x105BB), (0x10C80, 0x10CB2, 1, 0x10CC0),
      (0x118A0, 0x118BF, 1, 0x118C0), (0x16E40, 0x16E5F, 1, 0x16E60),
      (0x1E900, 0x1E921, 1, 0x1E922)]"

definition toLowerCP :: "nat \<Rightarrow> nat list" where
  "toLowerCP c =
     (if c < 128 then [asciiLower c]
      else if c = 0x130 then [0x69, 0x307]
      else [simpleCase lowerRanges c])"

text \<open>
  \<open>Final_Sigma\<close>: a capital sigma becomes the final small sigma when, passing over
  case-ignorable code points, a cased letter comes before it and none comes after it.
  \<open>caseIgnorableRanges\<close> is the property \<open>Case_Ignorable\<close>; \<open>casedRanges\<close> is the property
  \<open>Cased\<close> without the code points that are case-ignorable too, which the test never
  meets.
\<close>

definition casedRanges :: "(nat \<times> nat) list" where
  "casedRanges =
     [(0x41, 0x5A), (0x61, 0x7A), (0xAA, 0xAA), (0xB5, 0xB5), (0xBA, 0xBA), (0xC0, 0xD6),
      (0xD8, 0xF6), (0xF8, 0x1BA), (0x1BC, 0x1BF), (0x1C4, 0x293), (0x295, 0x2AF), (0x370, 0x373),
      (0x376, 0x377), (0x37B, 0x37D), (0x37F, 0x37F), (0x386, 0x386), (0x388, 0x38A),
      (0x38C, 0x38C), (0x38E, 0x3A1), (0x3A3, 0x3F5), (0x3F7, 0x481), (0x48A, 0x52F),
      (0x531, 0x556), (0x560, 0x588), (0x10A0, 0x10C5), (0x10C7, 0x10C7), (0x10CD, 0x10CD),
      (0x10D0, 0x10FA), (0x10FD, 0x10FF), (0x13A0, 0x13F5), (0x13F8, 0x13FD), (0x1C80, 0x1C88),
      (0x1C90, 0x1CBA), (0x1CBD, 0x1CBF), (0x1D00, 0x1D2B), (0x1D6B, 0x1D77), (0x1D79, 0x1D9A),
      (0x1E00, 0x1F15), (0x1F18, 0x1F1D), (0x1F20, 0x1F45), (0x1F48, 0x1F4D), (0x1F50, 0x1F57),
      (0x1F59, 0x1F59), (0x1F5B, 0x1F5B), (0x1F5D, 0x1F5D), (0x1F5F, 0x1F7D), (0x1F80, 0x1FB4),
      (0x1FB6, 0x1FBC), (0x1FBE, 0x1FBE), (0x1FC2, 0x1FC4), (0x1FC6, 0x1FCC), (0x1FD0, 0x1FD3),
      (0x1FD6, 0x1FDB), (0x1FE0, 0x1FEC), (0x1FF2, 0x1FF4), (0x1FF6, 0x1FFC), (0x2102, 0x2102),
      (0x2107, 0x2107), (0x210A, 0x2113), (0x2115, 0x2115), (0x2119, 0x211D), (0x2124, 0x2124),
      (0x2126, 0x2126), (0x2128, 0x2128), (0x212A, 0x212D), (0x212F, 0x2134), (0x2139, 0x2139),
      (0x213C, 0x213F), (0x2145, 0x2149), (0x214E, 0x214E), (0x2160, 0x217F), (0x2183, 0x2184),
      (0x24B6, 0x24E9), (0x2C00, 0x2C7B), (0x2C7E, 0x2CE4), (0x2CEB, 0x2CEE), (0x2CF2, 0x2CF3),
      (0x2D00, 0x2D25), (0x2D27, 0x2D27), (0x2D2D, 0x2D2D), (0xA640, 0xA66D), (0xA680, 0xA69B),
      (0xA722, 0xA76F), (0xA771, 0xA787), (0xA78B, 0xA78E), (0xA790, 0xA7CA), (0xA7D0, 0xA7D1),
      (0xA7D3, 0xA7D3), (0xA7D5, 0xA7D9), (0xA7F5, 0xA7F6), (0xA7FA, 0xA7FA), (0xAB30, 0xAB5A),
      (0xAB60, 0xAB68), (0xAB70, 0xABBF), (0xFB00, 0xFB06), (0xFB13, 0xFB17), (0xFF21, 0xFF3A),
      (0xFF41, 0xFF5A), (0x10400, 0x1044F), (0x104B0, 0x104D3), (0x104D8, 0x104FB),
      (0x10570, 0x1057A), (0x1057C, 0x1058A), (0x1058C, 0x10592), (0x10594, 0x10595),
      (0x10597, 0x105A1), (0x105A3, 0x105B1), (0x105B3, 0x105B9), (0x105BB, 0x105BC),
      (0x10C80, 0x10CB2), (0x10CC0, 0x10CF2), (0x118A0, 0x118DF), (0x16E40, 0x16E7F),
      (0x1D400, 0x1D454), (0x1D456, 0x1D49C), (0x1D49E, 0x1D49F), (0x1D4A2, 0x1D4A2),
      (0x1D4A5, 0x1D4A6), (0x1D4A9, 0x1D4AC), (0x1D4AE, 0x1D4B9), (0x1D4BB, 0x1D4BB),
      (0x1D4BD, 0x1D4C3), (0x1D4C5, 0x1D505), (0x1D507, 0x1D50A), (0x1D50D, 0x1D514),
      (0x1D516, 0x1D51C), (0x1D51E, 0x1D539), (0x1D53B, 0x1D53E), (0x1D540, 0x1D544),
      (0x1D546, 0x1D546), (0x1D54A, 0x1D550), (0x1D552, 0x1D6A5), (0x1D6A8, 0x1D6C0),
      (0x1D6C2, 0x1D6DA), (0x1D6DC, 0x1D6FA), (0x1D6FC, 0x1D714), (0x1D716, 0x1D734),
      (0x1D736, 0x1D74E), (0x1D750, 0x1D76E), (0x1D770, 0x1D788), (0x1D78A, 0x1D7A8),
      (0x1D7AA, 0x1D7C2), (0x1D7C4, 0x1D7CB), (0x1DF00, 0x1DF09), (0x1DF0B, 0x1DF1E),
      (0x1E900, 0x1E943), (0x1F130, 0x1F149), (0x1F150, 0x1F169), (0x1F170, 0x1F189)]"

definition caseIgnorableRanges :: "(nat \<times> nat) list" where
  "caseIgnorableRanges =
     [(0x27, 0x27), (0x2E, 0x2E), (0x3A, 0x3A), (0x5E, 0x5E), (0x60, 0x60), (0xA8, 0xA8),
      (0xAD, 0xAD), (0xAF, 0xAF), (0xB4, 0xB4), (0xB7, 0xB8), (0x2B0, 0x36F), (0x374, 0x375),
      (0x37A, 0x37A), (0x384, 0x385), (0x387, 0x387), (0x483, 0x489), (0x559, 0x559),
      (0x55F, 0x55F), (0x591, 0x5BD), (0x5BF, 0x5BF), (0x5C1, 0x5C2), (0x5C4, 0x5C5),
      (0x5C7, 0x5C7), (0x5F4, 0x5F4), (0x600, 0x605), (0x610, 0x61A), (0x61C, 0x61C),
      (0x640, 0x640), (0x64B, 0x65F), (0x670, 0x670), (0x6D6, 0x6DD), (0x6DF, 0x6E8),
      (0x6EA, 0x6ED), (0x70F, 0x70F), (0x711, 0x711), (0x730, 0x74A), (0x7A6, 0x7B0),
      (0x7EB, 0x7F5), (0x7FA, 0x7FA), (0x7FD, 0x7FD), (0x816, 0x82D), (0x859, 0x85B),
      (0x888, 0x888), (0x890, 0x891), (0x898, 0x89F), (0x8C9, 0x902), (0x93A, 0x93A),
      (0x93C, 0x93C), (0x941, 0x948), (0x94D, 0x94D), (0x951, 0x957), (0x962, 0x963),
      (0x971, 0x971), (0x981, 0x981), (0x9BC, 0x9BC), (0x9C1, 0x9C4), (0x9CD, 0x9CD),
      (0x9E2, 0x9E3), (0x9FE, 0x9FE), (0xA01, 0xA02), (0xA3C, 0xA3C), (0xA41, 0xA42),
      (0xA47, 0xA48), (0xA4B, 0xA4D), (0xA51, 0xA51), (0xA70, 0xA71), (0xA75, 0xA75),
      (0xA81, 0xA82), (0xABC, 0xABC), (0xAC1, 0xAC5), (0xAC7, 0xAC8), (0xACD, 0xACD),
      (0xAE2, 0xAE3), (0xAFA, 0xAFF), (0xB01, 0xB01), (0xB3C, 0xB3C), (0xB3F, 0xB3F),
      (0xB41, 0xB44), (0xB4D, 0xB4D), (0xB55, 0xB56), (0xB62, 0xB63), (0xB82, 0xB82),
      (0xBC0, 0xBC0), (0xBCD, 0xBCD), (0xC00, 0xC00), (0xC04, 0xC04), (0xC3C, 0xC3C),
      (0xC3E, 0xC40), (0xC46, 0xC48), (0xC4A, 0xC4D), (0xC55, 0xC56), (0xC62, 0xC63),
      (0xC81, 0xC81), (0xCBC, 0xCBC), (0xCBF, 0xCBF), (0xCC6, 0xCC6), (0xCCC, 0xCCD),
      (0xCE2, 0xCE3), (0xD00, 0xD01), (0xD3B, 0xD3C), (0xD41, 0xD44), (0xD4D, 0xD4D),
      (0xD62, 0xD63), (0xD81, 0xD81), (0xDCA, 0xDCA), (0xDD2, 0xDD4), (0xDD6, 0xDD6),
      (0xE31, 0xE31), (0xE34, 0xE3A), (0xE46, 0xE4E), (0xEB1, 0xEB1), (0xEB4, 0xEBC),
      (0xEC6, 0xEC6), (0xEC8, 0xECD), (0xF18, 0xF19), (0xF35, 0xF35), (0xF37, 0xF37),
      (0xF39, 0xF39), (0xF71, 0xF7E), (0xF80, 0xF84), (0xF86, 0xF87), (0xF8D, 0xF97),
      (0xF99, 0xFBC), (0xFC6, 0xFC6), (0x102D, 0x1030), (0x1032, 0x1037), (0x1039, 0x103A),
      (0x103D, 0x103E), (0x1058, 0x1059), (0x105E, 0x1060), (0x1071, 0x1074), (0x1082, 0x1082),
      (0x1085, 0x1086), (0x108D, 0x108D), (0x109D, 0x109D), (0x10FC, 0x10FC), (0x135D, 0x135F),
      (0x1712, 0x1714), (0x1732, 0x1733), (0x1752, 0x1753), (0x1772, 0x1773), (0x17B4, 0x17B5),
      (0x17B7, 0x17BD), (0x17C6, 0x17C6), (0x17C9, 0x17D3), (0x17D7, 0x17D7), (0x17DD, 0x17DD),
      (0x180B, 0x180F), (0x1843, 0x1843), (0x1885, 0x1886), (0x18A9, 0x18A9), (0x1920, 0x1922),
      (0x1927, 0x1928), (0x1932, 0x1932), (0x1939, 0x193B), (0x1A17, 0x1A18), (0x1A1B, 0x1A1B),
      (0x1A56, 0x1A56), (0x1A58, 0x1A5E), (0x1A60, 0x1A60), (0x1A62, 0x1A62), (0x1A65, 0x1A6C),
      (0x1A73, 0x1A7C), (0x1A7F, 0x1A7F), (0x1AA7, 0x1AA7), (0x1AB0, 0x1ACE), (0x1B00, 0x1B03),
      (0x1B34, 0x1B34), (0x1B36, 0x1B3A), (0x1B3C, 0x1B3C), (0x1B42, 0x1B42), (0x1B6B, 0x1B73),
      (0x1B80, 0x1B81), (0x1BA2, 0x1BA5), (0x1BA8, 0x1BA9), (0x1BAB, 0x1BAD), (0x1BE6, 0x1BE6),
      (0x1BE8, 0x1BE9), (0x1BED, 0x1BED), (0x1BEF, 0x1BF1), (0x1C2C, 0x1C33), (0x1C36, 0x1C37),
      (0x1C78, 0x1C7D), (0x1CD0, 0x1CD2), (0x1CD4, 0x1CE0), (0x1CE2, 0x1CE8), (0x1CED, 0x1CED),
      (0x1CF4, 0x1CF4), (0x1CF8, 0x1CF9), (0x1D2C, 0x1D6A), (0x1D78, 0x1D78), (0x1D9B, 0x1DFF),
      (0x1FBD, 0x1FBD), (0x1FBF, 0x1FC1), (0x1FCD, 0x1FCF), (0x1FDD, 0x1FDF), (0x1FED, 0x1FEF),
      (0x1FFD, 0x1FFE), (0x200B, 0x200F), (0x2018, 0x2019), (0x2024, 0x2024), (0x2027, 0x2027),
      (0x202A, 0x202E), (0x2060, 0x2064), (0x2066, 0x206F), (0x2071, 0x2071), (0x207F, 0x207F),
      (0x2090, 0x209C), (0x20D0, 0x20F0), (0x2C7C, 0x2C7D), (0x2CEF, 0x2CF1), (0x2D6F, 0x2D6F),
      (0x2D7F, 0x2D7F), (0x2DE0, 0x2DFF), (0x2E2F, 0x2E2F), (0x3005, 0x3005), (0x302A, 0x302D),
      (0x3031, 0x3035), (0x303B, 0x303B), (0x3099, 0x309E), (0x30FC, 0x30FE), (0xA015, 0xA015),
      (0xA4F8, 0xA4FD), (0xA60C, 0xA60C), (0xA66F, 0xA672), (0xA674, 0xA67D), (0xA67F, 0xA67F),
      (0xA69C, 0xA69F), (0xA6F0, 0xA6F1), (0xA700, 0xA721), (0xA770, 0xA770), (0xA788, 0xA78A),
      (0xA7F2, 0xA7F4), (0xA7F8, 0xA7F9), (0xA802, 0xA802), (0xA806, 0xA806), (0xA80B, 0xA80B),
      (0xA825, 0xA826), (0xA82C, 0xA82C), (0xA8C4, 0xA8C5), (0xA8E0, 0xA8F1), (0xA8FF, 0xA8FF),
      (0xA926, 0xA92D), (0xA947, 0xA951), (0xA980, 0xA982), (0xA9B3, 0xA9B3), (0xA9B6, 0xA9B9),
      (0xA9BC, 0xA9BD), (0xA9CF, 0xA9CF), (0xA9E5, 0xA9E6), (0xAA29, 0xAA2E), (0xAA31, 0xAA32),
      (0xAA35, 0xAA36), (0xAA43, 0xAA43), (0xAA4C, 0xAA4C), (0xAA70, 0xAA70), (0xAA7C, 0xAA7C),
      (0xAAB0, 0xAAB0), (0xAAB2, 0xAAB4), (0xAAB7, 0xAAB8), (0xAABE, 0xAABF), (0xAAC1, 0xAAC1),
      (0xAADD, 0xAADD), (0xAAEC, 0xAAED), (0xAAF3, 0xAAF4), (0xAAF6, 0xAAF6), (0xAB5B, 0xAB5F),
      (0xAB69, 0xAB6B), (0xABE5, 0xABE5), (0xABE8, 0xABE8), (0xABED, 0xABED), (0xFB1E, 0xFB1E),
      (0xFBB2, 0xFBC2), (0xFE00, 0xFE0F), (0xFE13, 0xFE13), (0xFE20, 0xFE2F), (0xFE52, 0xFE52),
      (0xFE55, 0xFE55), (0xFEFF, 0xFEFF), (0xFF07, 0xFF07), (0xFF0E, 0xFF0E), (0xFF1A, 0xFF1A),
      (0xFF3E, 0xFF3E), (0xFF40, 0xFF40), (0xFF70, 0xFF70), (0xFF9E, 0xFF9F), (0xFFE3, 0xFFE3),
      (0xFFF9, 0xFFFB), (0x101FD, 0x101FD), (0x102E0, 0x102E0), (0x10376, 0x1037A),
      (0x10780, 0x10785), (0x10787, 0x107B0), (0x107B2, 0x107BA), (0x10A01, 0x10A03),
      (0x10A05, 0x10A06), (0x10A0C, 0x10A0F), (0x10A38, 0x10A3A), (0x10A3F, 0x10A3F),
      (0x10AE5, 0x10AE6), (0x10D24, 0x10D27), (0x10EAB, 0x10EAC), (0x10F46, 0x10F50),
      (0x10F82, 0x10F85), (0x11001, 0x11001), (0x11038, 0x11046), (0x11070, 0x11070),
      (0x11073, 0x11074), (0x1107F, 0x11081), (0x110B3, 0x110B6), (0x110B9, 0x110BA),
      (0x110BD, 0x110BD), (0x110C2, 0x110C2), (0x110CD, 0x110CD), (0x11100, 0x11102),
      (0x11127, 0x1112B), (0x1112D, 0x11134), (0x11173, 0x11173), (0x11180, 0x11181),
      (0x111B6, 0x111BE), (0x111C9, 0x111CC), (0x111CF, 0x111CF), (0x1122F, 0x11231),
      (0x11234, 0x11234), (0x11236, 0x11237), (0x1123E, 0x1123E), (0x112DF, 0x112DF),
      (0x112E3, 0x112EA), (0x11300, 0x11301), (0x1133B, 0x1133C), (0x11340, 0x11340),
      (0x11366, 0x1136C), (0x11370, 0x11374), (0x11438, 0x1143F), (0x11442, 0x11444),
      (0x11446, 0x11446), (0x1145E, 0x1145E), (0x114B3, 0x114B8), (0x114BA, 0x114BA),
      (0x114BF, 0x114C0), (0x114C2, 0x114C3), (0x115B2, 0x115B5), (0x115BC, 0x115BD),
      (0x115BF, 0x115C0), (0x115DC, 0x115DD), (0x11633, 0x1163A), (0x1163D, 0x1163D),
      (0x1163F, 0x11640), (0x116AB, 0x116AB), (0x116AD, 0x116AD), (0x116B0, 0x116B5),
      (0x116B7, 0x116B7), (0x1171D, 0x1171F), (0x11722, 0x11725), (0x11727, 0x1172B),
      (0x1182F, 0x11837), (0x11839, 0x1183A), (0x1193B, 0x1193C), (0x1193E, 0x1193E),
      (0x11943, 0x11943), (0x119D4, 0x119D7), (0x119DA, 0x119DB), (0x119E0, 0x119E0),
      (0x11A01, 0x11A0A), (0x11A33, 0x11A38), (0x11A3B, 0x11A3E), (0x11A47, 0x11A47),
      (0x11A51, 0x11A56), (0x11A59, 0x11A5B), (0x11A8A, 0x11A96), (0x11A98, 0x11A99),
      (0x11C30, 0x11C36), (0x11C38, 0x11C3D), (0x11C3F, 0x11C3F), (0x11C92, 0x11CA7),
      (0x11CAA, 0x11CB0), (0x11CB2, 0x11CB3), (0x11CB5, 0x11CB6), (0x11D31, 0x11D36),
      (0x11D3A, 0x11D3A), (0x11D3C, 0x11D3D), (0x11D3F, 0x11D45), (0x11D47, 0x11D47),
      (0x11D90, 0x11D91), (0x11D95, 0x11D95), (0x11D97, 0x11D97), (0x11EF3, 0x11EF4),
      (0x13430, 0x13438), (0x16AF0, 0x16AF4), (0x16B30, 0x16B36), (0x16B40, 0x16B43),
      (0x16F4F, 0x16F4F), (0x16F8F, 0x16F9F), (0x16FE0, 0x16FE1), (0x16FE3, 0x16FE4),
      (0x1AFF0, 0x1AFF3), (0x1AFF5, 0x1AFFB), (0x1AFFD, 0x1AFFE), (0x1BC9D, 0x1BC9E),
      (0x1BCA0, 0x1BCA3), (0x1CF00, 0x1CF2D), (0x1CF30, 0x1CF46), (0x1D167, 0x1D169),
      (0x1D173, 0x1D182), (0x1D185, 0x1D18B), (0x1D1AA, 0x1D1AD), (0x1D242, 0x1D244),
      (0x1DA00, 0x1DA36), (0x1DA3B, 0x1DA6C), (0x1DA75, 0x1DA75), (0x1DA84, 0x1DA84),
      (0x1DA9B, 0x1DA9F), (0x1DAA1, 0x1DAAF), (0x1E000, 0x1E006), (0x1E008, 0x1E018),
      (0x1E01B, 0x1E021), (0x1E023, 0x1E024), (0x1E026, 0x1E02A), (0x1E130, 0x1E13D),
      (0x1E2AE, 0x1E2AE), (0x1E2EC, 0x1E2EF), (0x1E8D0, 0x1E8D6), (0x1E944, 0x1E94B),
      (0x1F3FB, 0x1F3FF), (0xE0001, 0xE0001), (0xE0020, 0xE007F), (0xE0100, 0xE01EF)]"

definition isCased :: "nat \<Rightarrow> bool" where
  "isCased c = list_ex (\<lambda>(lo, hi). lo \<le> c \<and> c \<le> hi) casedRanges"

definition isCaseIgnorable :: "nat \<Rightarrow> bool" where
  "isCaseIgnorable c = list_ex (\<lambda>(lo, hi). lo \<le> c \<and> c \<le> hi) caseIgnorableRanges"

definition finalSigma :: "nat list \<Rightarrow> nat list \<Rightarrow> bool" where
  "finalSigma before after \<longleftrightarrow>
     (case dropWhile isCaseIgnorable before of [] \<Rightarrow> False | c # _ \<Rightarrow> isCased c) \<and>
     (case dropWhile isCaseIgnorable after of [] \<Rightarrow> True | c # _ \<Rightarrow> \<not> isCased c)"

text \<open>
  The code points of a string: a high surrogate followed by a low surrogate is one code
  point, every other code unit is a code point by itself. \<open>codeUnits\<close> is the way back.
\<close>

fun codePoints :: "jsstring \<Rightarrow> nat list" where
  "codePoints [] = []"
| "codePoints [c] = [c]"
| "codePoints (c # d # s) =
     (if 0xD800 \<le> c \<and> c \<le> 0xDBFF \<and> 0xDC00 \<le> d \<and> d \<le> 0xDFFF
      then (0x10000 + (c - 0xD800) * 0x400 + (d - 0xDC00)) # codePoints s
      else c # codePoints (d # s))"

definition codeUnits :: "nat \<Rightarrow> jsstring" where
  "codeUnits cp =
     (if cp < 0x10000 then [cp]
      else [0xD800 + (cp - 0x10000) div 0x400, 0xDC00 + (cp - 0x10000) mod 0x400])"

text \<open>
  \<open>s.toLowerCase()\<close>, code point by code point; \<open>before\<close> holds the code points passed,
  the nearest first.
\<close>

fun lowerFrom :: "nat list \<Rightarrow> nat list \<Rightarrow> jsstring" where
  "lowerFrom before [] = []"
| "lowerFrom before (c # after) =
     (if c = 0x3A3 then (if finalSigma before after then [0x3C2] else [0x3C3])
      else concat (map codeUnits (toLowerCP c)))
     @ lowerFrom (c # before) after"

definition toLowerCase :: "jsstring \<Rightarrow> jsstring" where
  "toLowerCase s = lowerFrom [] (codePoints s)"

definition isPunct :: "nat \<Rightarrow> bool" where
  "isPunct c \<longleftrightarrow> c = 46 \<or> c = 33 \<or> c = 63"

text \<open>\<open>cleaned.replace(/[.!?]+$/, '')\<close>: the first match is the whole run at the end.\<close>

definition removeTrailingPunct :: "jsstring \<Rightarrow> jsstring" where
  "removeTrailingPunct s = rev (dropWhile isPunct (rev s))"

definition capitalize :: "jsstring \<Rightarrow> jsstring" where
  "capitalize cleaned = (case cleaned of [] \<Rightarrow> [] | c # cs \<Rightarrow> toUpperCase1 c @ cs)"

definition removePrefixes :: "jsstring \<Rightarrow> jsstring" where
  "removePrefixes cleaned = foldl replacePrefix cleaned PREFIXES_TO_REMOVE"

definition cleanBullet :: "jsstring \<Rightarrow> jsstring" where
  "cleanBullet bullet = trim (removeTrailingPunct (capitalize (removePrefixes (trim bullet))))"

section \<open>server/services/openaiService.ts: the date normalizer\<close>

text \<open>
  The calendar of \<open>Date\<close>. The code moves a copy of today back by
  \<open>d.setDate(today.getDate() - k)\<close> with \<open>k\<close> from 1 to 14; \<open>setDate\<close> with a day number
  below 1 carries into the months and years before, so the result is the calendar date
  \<open>k\<close> days before today.
\<close>

definition isLeapYear :: "int \<Rightarrow> bool" where
  "isLeapYear y \<longleftrightarrow> (y mod 4 = 0 \<and> y mod 100 \<noteq> 0) \<or> y mod 400 = 0"

definition daysInMonth :: "int \<Rightarrow> nat \<Rightarrow> nat" where
  "daysInMonth y m =
     (if m = 1 then (if isLeapYear y then 29 else 28)
      else if m = 3 \<or> m = 5 \<or> m = 8 \<or> m = 10 then 30
      else 31)"

definition prevDay :: "jsdate \<Rightarrow> jsdate" where
  "prevDay d =
     (let wd = (getDay d + 6) mod 7
      in if getDate d > 1 then d\<lparr>getDate := getDate d - 1, getDay := wd\<rparr>
         else if getMonth d > 0
         then d\<lparr>getMonth := getMonth d - 1, getDate := daysInMonth (getFullYear d) (getMonth d - 1),
                getDay := wd\<rparr>
         else d\<lparr>getFullYear := getFullYear d - 1, getMonth := 11, getDate := 31, getDay := wd\<rparr>)"

definition daysBefore :: "nat \<Rightarrow> jsdate \<Rightarrow> jsdate" where
  "daysBefore k today = (prevDay ^^ k) today"

text \<open>\<open>parseInt\<close> of a string of decimal digits.\<close>

definition parseInt :: "jsstring \<Rightarrow> nat" where
  "parseInt ds = foldl (\<lambda>a c. 10 * a + (c - 48)) 0 ds"

definition isSep :: "nat \<Rightarrow> bool" where
  "isSep c \<longleftrightarrow> c = 47 \<or> c = 45"

text \<open>\<open>dateStr.match(/^(\d{1,2})[\/\-](\d{1,2})[\/\-](\d{4})$/)\<close>: the three groups.\<close>

definition fullDateMatch :: "jsstring \<Rightarrow> (jsstring \<times> jsstring \<times> jsstring) option" where
  "fullDateMatch s =
     (case digits12 s of
        None \<Rightarrow> None
      | Some (m, r1) \<Rightarrow>
          (case r1 of
             [] \<Rightarrow> None
           | c1 # r1' \<Rightarrow>
               if \<not> isSep c1 then None
               else
                 (case digits12 r1' of
                    None \<Rightarrow> None
                  | Some (d, r2) \<Rightarrow>
                      (case r2 of
                         [] \<Rightarrow> None
                       | c2 # y \<Rightarrow>
                           if isSep c2 \<and> length y = 4 \<and> list_all isDigit y then Some (m, d, y)
                           else None))))"

text \<open>\<open>dateStr.match(/^(\d{1,2})[\/\-](\d{1,2})$/)\<close>.\<close>

definition shortDateMatch :: "jsstring \<Rightarrow> (jsstring \<times> jsstring) option" where
  "shortDateMatch s =
     (case digits12 s of
        None \<Rightarrow> None
      | Some (m, r1) \<Rightarrow>
          (case r1 of
             [] \<Rightarrow> None
           | c1 # r1' \<Rightarrow>
               if \<not> isSep c1 then None
               else
                 (case digits12 r1' of
                    None \<Rightarrow> None
                  | Some (d, r2) \<Rightarrow> if r2 = [] then Some (m, d) else None)))"

text \<open>\<open>s.includes(t)\<close>.\<close>

fun includesStr :: "jsstring \<Rightarrow> jsstring \<Rightarrow> bool" where
  "includesStr [] t = (t = [])"
| "includesStr (c # s) t = (prefix t (c # s) \<or> includesStr s t)"

text \<open>
  \<open>(\w+day)\<close> at the start of a string: \<open>\w+\<close> is greedy, so the group is the longest
  stretch of word characters that ends in \<open>day\<close> and has something before it.
\<close>

definition wordDayAt :: "jsstring \<Rightarrow> jsstring option" where
  "wordDayAt s =
     (let run = takeWhile isWord s
      in case filter (\<lambda>k. take 3 (drop k run) = str ''day'') (rev [1 ..< length run - 2]) of
           [] \<Rightarrow> None
         | k # _ \<Rightarrow> Some (take (k + 3) run))"

text \<open>
  \<open>(?:last\s+)?(\w+day)\<close> at the start of a string: first with the optional part, then
  without it.
\<close>

definition dayPatternAt :: "jsstring \<Rightarrow> jsstring option" where
  "dayPatternAt s =
     (let withLast =
            (case matchWordExact (str ''last'') s of
               None \<Rightarrow> None
             | Some r \<Rightarrow> (case matchSpaces r of None \<Rightarrow> None | Some r' \<Rightarrow> wordDayAt r'))
      in case withLast of Some g \<Rightarrow> Some g | None \<Rightarrow> wordDayAt s)"

text \<open>\<open>lower.match(/(?:last\s+)?(\w+day)/)\<close>: group 1 of the leftmost match.\<close>

fun dayMatch :: "jsstring \<Rightarrow> jsstring option" where
  "dayMatch [] = None"
| "dayMatch (c # s) =
     (case dayPatternAt (c # s) of Some g \<Rightarrow> Some g | None \<Rightarrow> dayMatch s)"

definition dayNames :: "jsstring list" where
  "dayNames = [str ''sunday'', str ''monday'', str ''tuesday'', str ''wednesday'', str ''thursday'',
               str ''friday'', str ''saturday'']"

definition monthNames :: "jsstring list" where
  "monthNames = [str ''january'', str ''february'', str ''march'', str ''april'', str ''may'',
                 str ''june'', str ''july'', str ''august'', str ''september'', str ''october'',
                 str ''november'', str ''december'']"

text \<open>
  \<open>(\w+)\s+(\d{1,2})(?:st|nd|rd|th)?(?:\s+(\d{4}))?\<close> at the start of a string: groups 1,
  2 and 3. The word must run up to white space, the white space up to a digit; nothing
  after the day is required, so every greedy choice stands.
\<close>

definition ordinalSuffix :: "jsstring \<Rightarrow> jsstring" where
  "ordinalSuffix s =
     (if prefix (str ''st'') s \<or> prefix (str ''nd'') s \<or> prefix (str ''rd'') s \<or> prefix (str ''th'') s
      then drop 2 s else s)"

definition yearGroup :: "jsstring \<Rightarrow> jsstring option" where
  "yearGroup s =
     (case matchSpaces s of
        None \<Rightarrow> None
      | Some r \<Rightarrow> if length (takeWhile isDigit (take 4 r)) = 4 then Some (take 4 r) else None)"

definition monthPatternAt :: "jsstring \<Rightarrow> (jsstring \<times> jsstring \<times> jsstring option) option" where
  "monthPatternAt s =
     (let w = takeWhile isWord s
      in if w = [] then None
         else
           (case matchSpaces (dropWhile isWord s) of
              None \<Rightarrow> None
            | Some r \<Rightarrow>
                (let ds = takeWhile isDigit (take 2 r)
                 in if ds = [] then None
                    else Some (w, ds, yearGroup (ordinalSuffix (drop (length ds) r))))))"

text \<open>
  The leftmost match. A start inside a word is tried too: \<open>\w+\<close> then takes the rest of
  that word.
\<close>

fun monthMatch :: "jsstring \<Rightarrow> (jsstring \<times> jsstring \<times> jsstring option) option" where
  "monthMatch [] = None"
| "monthMatch (c # s) =
     (case monthPatternAt (c # s) of Some g \<Rightarrow> Some g | None \<Rightarrow> monthMatch s)"

definition normalizeDateFormat :: "jsdate \<Rightarrow> jsstring \<Rightarrow> jsstring option" where
  "normalizeDateFormat today dateStr =
     (if dateStr = [] then None
      else
        (let currentYear = getFullYear today;
             lower = toLowerCase dateStr
         in if isDateKey dateStr then Some dateStr
            else
              (case fullDateMatch dateStr of
                 Some (m, d, y) \<Rightarrow> Some (showNat (parseInt m) @ [46] @ showNat (parseInt d) @ [46] @ y)
               | None \<Rightarrow>
                   (case shortDateMatch dateStr of
                      Some (m, d) \<Rightarrow>
                        Some (showNat (parseInt m) @ [46] @ showNat (parseInt d) @ [46] @ showInt currentYear)
                    | None \<Rightarrow>
                        if includesStr lower (str ''today'') then Some (formatDateHeader today)
                        else if includesStr lower (str ''yesterday'') then Some (fmtDate (daysBefore 1 today))
                        else
                          (let byDay =
                                 (case dayMatch lower of
                                    None \<Rightarrow> None
                                  | Some g \<Rightarrow>
                                      (case findIndex (\<lambda>day. startsWith day (toLowerCase g)) dayNames of
                                         None \<Rightarrow> None
                                       | Some dayIndex \<Rightarrow>
                                           (let currentDay = getDay today;
                                                daysBack = int currentDay - int dayIndex;
                                                daysBack = (if daysBack \<le> 0 then daysBack + 7 else daysBack);
                                                daysBack = (if includesStr lower (str ''last'') then daysBack + 7
                                                            else daysBack)
                                            in Some (fmtDate (daysBefore (nat daysBack) today)))))
                           in case byDay of
                                Some r \<Rightarrow> Some r
                              | None \<Rightarrow>
                                  (case monthMatch lower of
                                     None \<Rightarrow> None
                                   | Some (g1, g2, g3) \<Rightarrow>
                                       (case findIndex (\<lambda>month. startsWith month (toLowerCase g1)) monthNames of
                                          None \<Rightarrow> None
                                        | Some monthIndex \<Rightarrow>
                                            (let day = parseInt g2;
                                                 year = (case g3 of
                                                           Some y \<Rightarrow> showNat (parseInt y)
                                                         | None \<Rightarrow> showInt currentYear)
                                             in Some (showNat (monthIndex + 1) @ [46] @ showNat day @ [46] @ year)))))))))"

section \<open>Fixtures\<close>

text \<open>Sunday, 21 September 2025, and the Monday after it.\<close>

definition sunday_21_9_2025 :: jsdate where
  "sunday_21_9_2025 = \<lparr>getFullYear = 2025, getMonth = 8, getDate = 21, getDay = 0\<rparr>"

definition monday_22_9_2025 :: jsdate where
  "monday_22_9_2025 = \<lparr>getFullYear = 2025, getMonth = 8, getDate = 22, getDay = 1\<rparr>"


section \<open>What is observed of a document\<close>

text \<open>
  The header lines of a document, by their keys and in order: a line is a header when its
  trimmed form is a date key.
\<close>

definition headers :: "jsstring \<Rightarrow> jsstring list" where
  "headers doc = filter isDateKey (map trim (split doc))"

text \<open>Entries none of whose lines is a header line.\<close>

definition okEvents :: "jsstring list \<Rightarrow> bool" where
  "okEvents es \<longleftrightarrow> (\<forall>e\<in>set es. headers e = [])"

text \<open>Bullets as the parse loop leaves them: trimmed, and beginning with \<open>"- "\<close>.\<close>

definition okBullets :: "jsstring list \<Rightarrow> bool" where
  "okBullets es \<longleftrightarrow> (\<forall>e\<in>set es. trim e = e \<and> startsWith e (str ''- ''))"

text \<open>The invariant of the parse loop over the groups it has built.\<close>

definition okGroups :: "dateEvents \<Rightarrow> bool" where
  "okGroups de \<longleftrightarrow> distinct (map fst de) \<and> (\<forall>(d, es)\<in>set de. isDateKey d \<and> okEvents es)"

text \<open>
  The groups of a payload, read off the payload itself: the dates in the order in which
  the payload first names them, each with the bullet lines that stand under a header line
  for it (the nearest header line above a bullet line decides), in the order of the
  payload. \<open>cur\<close> is the date of the nearest header line above, empty when there is none.
\<close>

fun keysInOrder :: "jsstring list \<Rightarrow> jsstring list" where
  "keysInOrder [] = []"
| "keysInOrder (b # bs) =
     (if isDateKey (trim b) then trim b # filter (\<lambda>k. k \<noteq> trim b) (keysInOrder bs)
      else keysInOrder bs)"

fun entriesUnder :: "jsstring \<Rightarrow> jsstring \<Rightarrow> jsstring list \<Rightarrow> jsstring list" where
  "entriesUnder d cur [] = []"
| "entriesUnder d cur (b # bs) =
     (if isDateKey (trim b) then entriesUnder d (trim b) bs
      else if startsWith (trim b) (str ''- '') \<and> cur = d then trim b # entriesUnder d cur bs
      else entriesUnder d cur bs)"

definition groupsOf :: "jsstring list \<Rightarrow> dateEvents" where
  "groupsOf payload = map (\<lambda>d. (d, entriesUnder d [] payload)) (keysInOrder payload)"

text \<open>The dates of the groups that keep at least one bullet line.\<close>

definition groupDates :: "jsstring list \<Rightarrow> jsstring list" where
  "groupDates payload = filter (\<lambda>d. entriesUnder d [] payload \<noteq> []) (keysInOrder payload)"

text \<open>
  The lines that an operation writes from a payload: the bullet lines of its groups when
  the payload names a date, every line of the payload when it names none.
\<close>

definition writtenLines :: "jsstring list \<Rightarrow> jsstring list" where
  "writtenLines payload =
     (if hasMultipleDates payload then concat (map snd (groupsOf payload)) else payload)"

text \<open>
  The spellings of the weekday with index \<open>i\<close> (0 for Sunday) that the weekday theorems
  range over: the name as the table \<open>dayNames\<close> has it, and with a capital.
\<close>

definition weekdaySpellings :: "nat \<Rightarrow> jsstring list" where
  "weekdaySpellings i = [dayNames ! i, capitalize (dayNames ! i)]"

text \<open>
  The number of days from today back to the weekday with index \<open>i\<close>, where the same weekday
  counts as a week ago: 7, 1, 2, ..., 6 for a weekday that was 0, 1, 2, ..., 6 days ago.
\<close>

definition bareDaysBack :: "jsdate \<Rightarrow> nat \<Rightarrow> nat" where
  "bareDaysBack today i = (if getDay today \<le> i then getDay today + 7 - i else getDay today - i)"

text \<open>
  The cleanup as the specification words it, to compare the code with: the patterns are
  tried in the listed order and only the first one that matches strips its match.
\<close>

fun removeFirstMatch :: "jsstring list list \<Rightarrow> jsstring \<Rightarrow> jsstring" where
  "removeFirstMatch [] s = s"
| "removeFirstMatch (p # ps) s = (case matchPrefix p s of Some r \<Rightarrow> r | None \<Rightarrow> removeFirstMatch ps s)"

definition cleanBullet_firstMatchWins :: "jsstring \<Rightarrow> jsstring" where
  "cleanBullet_firstMatchWins bullet =
     trim (removeTrailingPunct (capitalize (removeFirstMatch PREFIXES_TO_REMOVE (trim bullet))))"

text \<open>
  The header lines of \<open>out\<close> are those of \<open>doc\<close>, in their order, followed by keys that
  are new to \<open>doc\<close> and differ from each other.
\<close>

definition addsFresh :: "jsstring \<Rightarrow> jsstring \<Rightarrow> bool" where
  "addsFresh doc out \<longleftrightarrow>
     (\<exists>N. headers out = headers doc @ N \<and> distinct N \<and> set N \<inter> set (headers doc) = {})"

text \<open>
  An entry that comes from the payload as the parse loop admits it: it is the trimmed form
  of a payload line, begins with \<open>"- "\<close>, and some line before it in the payload is a date
  header.
\<close>

definition retainedFrom :: "jsstring list \<Rightarrow> jsstring \<Rightarrow> bool" where
  "retainedFrom payload e \<longleftrightarrow>
     startsWith e (str ''- '') \<and>
     (\<exists>pre b post. payload = pre @ b # post \<and> e = trim b \<and> list_ex (\<lambda>h. isDateKey (trim h)) pre)"

text \<open>
  What an operation leaves alone. The dates that an operation works at are the dates of
  the groups of the payload that keep a bullet line; a payload that names no date is
  written at the end of the document by \<open>appendToJournal\<close> and at the header line of
  today by \<open>overwriteJournal\<close>, when today is among the dates to overwrite.
\<close>

definition appendTargets :: "jsstring list \<Rightarrow> jsstring list" where
  "appendTargets payload = (if hasMultipleDates payload then groupDates payload else [])"

definition overwriteTargets :: "jsdate \<Rightarrow> jsstring list \<Rightarrow> jsstring list \<Rightarrow> jsstring list" where
  "overwriteTargets today payload datesToOverwrite =
     (if hasMultipleDates payload then groupDates payload
      else if formatDateHeader today \<in> set datesToOverwrite then [formatDateHeader today]
      else [])"

text \<open>The lines that the merge passes over after a header line: bullet lines and blank lines.\<close>

definition isEntryOrBlank :: "jsstring \<Rightarrow> bool" where
  "isEntryOrBlank l \<longleftrightarrow> startsWith l (str ''- '') \<or> trim l = []"

text \<open>
  \<open>untouchedRun start targets pre S post\<close>: of the lines \<open>pre @ S @ post\<close> of a document, the
  run \<open>S\<close> is out of the reach of an operation with the given target dates. The run is
  not empty. It begins at a line that \<open>start\<close> admits, or no header line and no line of a
  target date comes before it. A target date that has a line in the run has a line before
  the run too, so that the first line of a target date is never in the run. The run does
  not touch the white space at the two ends of the document: a line that is not blank
  comes before it or its first line begins with a code unit that is not white space, and
  the same at its end.
\<close>

definition untouchedRun ::
  "(jsstring \<Rightarrow> bool) \<Rightarrow> jsstring list \<Rightarrow> jsstring list \<Rightarrow> jsstring list \<Rightarrow> jsstring list \<Rightarrow> bool" where
  "untouchedRun start targets pre S post \<longleftrightarrow>
     S \<noteq> [] \<and>
     (start (hd S) \<or> list_all (\<lambda>l. \<not> isDateKey (trim l) \<and> trim l \<notin> set targets) pre) \<and>
     list_all (\<lambda>d. d \<in> trim ` set S \<longrightarrow> d \<in> trim ` set pre) targets \<and>
     (list_ex (\<lambda>l. trim l \<noteq> []) pre \<or> (hd S \<noteq> [] \<and> \<not> isSpace (hd (hd S)))) \<and>
     (list_ex (\<lambda>l. trim l \<noteq> []) post \<or> (last S \<noteq> [] \<and> \<not> isSpace (last (last S))))"

text \<open>The document \<open>r\<close> holds the run \<open>S\<close> in that way.\<close>

definition keepsRun :: "(jsstring \<Rightarrow> bool) \<Rightarrow> jsstring list \<Rightarrow> jsstring list \<Rightarrow> jsstring \<Rightarrow> bool" where
  "keepsRun start D S r \<longleftrightarrow> (\<exists>pre post. split r = pre @ S @ post \<and> untouchedRun start D pre S post)"

text \<open>
  \<open>keepsLines r r'\<close>: \<open>r'\<close> is \<open>r\<close>, or \<open>r\<close> is white space only, or every line of the trimmed
  \<open>r\<close> is a line of \<open>r'\<close>, in the same order (lines are inserted, none is changed or
  dropped).
\<close>

definition keepsLines :: "jsstring \<Rightarrow> jsstring \<Rightarrow> bool" where
  "keepsLines r r' \<longleftrightarrow> r' = r \<or> trim r = [] \<or> subseq (split (trim r)) (split r')"

text \<open>
  Dates as the normalizer meets them. \<open>calendarDate lo d\<close>: the month index is below 12,
  the day of the month is between 1 and 31 and the year between \<open>lo\<close> and 9999.
  \<open>validClock\<close>: the clock shows such a date of 1970 or later, with a weekday index
  below 7.
\<close>

definition calendarDate :: "int \<Rightarrow> jsdate \<Rightarrow> bool" where
  "calendarDate lo d \<longleftrightarrow>
     getMonth d < 12 \<and> 1 \<le> getDate d \<and> getDate d \<le> 31 \<and> lo \<le> getFullYear d \<and> getFullYear d \<le> 9999"

definition validClock :: "jsdate \<Rightarrow> bool" where
  "validClock today \<longleftrightarrow>
     getMonth today < 12 \<and> 1 \<le> getDate today \<and> getDate today \<le> 31 \<and> getDay today < 7 \<and>
     1970 \<le> getFullYear today \<and> getFullYear today \<le> 9999"

section \<open>Lines, trimming and header lines\<close>

lemma isSpace_NL [simp]: "isSpace NL"
  by (simp add: isSpace_def NL_def)

lemma split_nonempty [simp]: "split s \<noteq> []"
  by (induction s) (auto split: list.splits)

lemma split_append_NL: "split (a @ NL # b) = split a @ split b"
  by (induction a) (auto split: list.splits)

lemma split_noNL: "NL \<notin> set s \<Longrightarrow> split s = [s]"
  by (induction s) auto

lemma split_lines_noNL: "l \<in> set (split s) \<Longrightarrow> NL \<notin> set l"
  by (induction s arbitrary: l) (auto split: list.splits if_splits)

lemma join_split [simp]: "join (split s) = s"
proof (induction s)
  case Nil
  then show ?case by simp
next
  case (Cons c s)
  obtain l ls where sp: "split s = l # ls" by (cases "split s") auto
  show ?case
  proof (cases "c = NL")
    case True
    with Cons sp show ?thesis by simp
  next
    case False
    with Cons sp show ?thesis by (cases ls) auto
  qed
qed

lemma join_Cons: "ls \<noteq> [] \<Longrightarrow> join (l # ls) = l @ NL # join ls"
  by (cases ls) auto

lemma join_append: "xs \<noteq> [] \<Longrightarrow> ys \<noteq> [] \<Longrightarrow> join (xs @ ys) = join xs @ NL # join ys"
  by (induction xs rule: join.induct) (auto simp: join_Cons)

lemma split_join: "ls \<noteq> [] \<Longrightarrow> \<forall>l\<in>set ls. NL \<notin> set l \<Longrightarrow> split (join ls) = ls"
proof (induction ls rule: join.induct)
  case 1
  then show ?case by simp
next
  case (2 l)
  then show ?case by (simp add: split_noNL)
next
  case (3 l v va)
  then show ?case by (simp add: split_append_NL split_noNL)
qed

lemma split_snoc: "c \<noteq> NL \<Longrightarrow> split (s @ [c]) = butlast (split s) @ [last (split s) @ [c]]"
  by (induction s) (auto split: list.splits)

lemma trim_Nil [simp]: "trim [] = []"
  by (simp add: trim_def trimStart_def trimEnd_def)

lemma trim_space_Cons: "isSpace c \<Longrightarrow> trim (c # s) = trim s"
  by (simp add: trim_def trimStart_def)

lemma trimEnd_snoc: "isSpace c \<Longrightarrow> trimEnd (s @ [c]) = trimEnd s"
  by (simp add: trimEnd_def)

lemma trim_space_snoc: "isSpace c \<Longrightarrow> trim (s @ [c]) = trim s"
proof (cases "\<forall>x\<in>set s. isSpace x")
  case True
  assume "isSpace c"
  with True have "dropWhile isSpace (s @ [c]) = []" "dropWhile isSpace s = []" by auto
  then show ?thesis by (simp only: trim_def trimStart_def)
next
  case False
  assume "isSpace c"
  from False obtain x where "x \<in> set s" "\<not> isSpace x" by auto
  then have "dropWhile isSpace (s @ [c]) = dropWhile isSpace s @ [c]"
    by (simp add: dropWhile_append1)
  with \<open>isSpace c\<close> show ?thesis
    by (simp add: trim_def trimStart_def trimEnd_snoc)
qed

lemma trims_space_Cons:
  "isSpace c \<Longrightarrow> \<not> P [] \<Longrightarrow> filter P (map trim (split (c # s))) = filter P (map trim (split s))"
  by (cases "split s") (auto simp: trim_space_Cons)

lemma trims_space_snoc:
  assumes "isSpace c" "\<not> P []"
  shows "filter P (map trim (split (s @ [c]))) = filter P (map trim (split s))"
proof (cases "c = NL")
  case True
  have "split (s @ [NL]) = split s @ [[]]" using split_append_NL [of s "[]"] by simp
  with True assms show ?thesis by simp
next
  case False
  have "split s = butlast (split s) @ [last (split s)]" by simp
  then have "map trim (split s) = map trim (butlast (split s)) @ [trim (last (split s))]"
    by (metis list.simps(8) list.simps(9) map_append)
  with False assms show ?thesis by (simp add: split_snoc trim_space_snoc)
qed

lemma trims_trimStart:
  "\<not> P [] \<Longrightarrow> filter P (map trim (split (trimStart s))) = filter P (map trim (split s))"
  unfolding trimStart_def by (induction s) (auto simp: trims_space_Cons simp del: split.simps)

lemma trimEnd_snoc_if: "trimEnd (s @ [c]) = (if isSpace c then trimEnd s else s @ [c])"
  by (simp add: trimEnd_def)

lemma trims_trimEnd:
  "\<not> P [] \<Longrightarrow> filter P (map trim (split (trimEnd s))) = filter P (map trim (split s))"
proof (induction s rule: rev_induct)
  case Nil
  then show ?case by (simp add: trimEnd_def)
next
  case (snoc c s)
  then show ?case by (simp add: trimEnd_snoc_if trims_space_snoc)
qed

lemma trims_trim:
  "\<not> P [] \<Longrightarrow> filter P (map trim (split (trim s))) = filter P (map trim (split s))"
  by (simp add: trim_def trims_trimEnd trims_trimStart)

lemma isDateKey_Nil [simp]: "\<not> isDateKey []"
  by (simp add: isDateKey_def digits12_def)

lemma isDateKey_chars:
  assumes "isDateKey d"
  shows "\<forall>c\<in>set d. isDigit c \<or> c = 46"
proof -
  from assms obtain m r1 where d1: "digits12 d = Some (m, r1)"
    by (auto simp: isDateKey_def split: option.splits)
  then have m: "m = takeWhile isDigit d" "r1 = dropWhile isDigit d"
    by (auto simp: digits12_def Let_def split: if_splits)
  from assms d1 obtain r1' where r1: "r1 = 46 # r1'"
    by (auto simp: isDateKey_def split: list.splits)
  from assms d1 r1 obtain dd r2 where d2: "digits12 r1' = Some (dd, r2)"
    by (auto simp: isDateKey_def split: option.splits)
  then have dd: "dd = takeWhile isDigit r1'" "r2 = dropWhile isDigit r1'"
    by (auto simp: digits12_def Let_def split: if_splits)
  from assms d1 r1 d2 obtain y where r2: "r2 = 46 # y" "list_all isDigit y"
    by (auto simp: isDateKey_def split: list.splits)
  have "d = m @ 46 # dd @ 46 # y"
    using m r1 dd r2 by (metis takeWhile_dropWhile_id)
  moreover have "\<forall>c\<in>set m. isDigit c" "\<forall>c\<in>set dd. isDigit c"
    using m dd by (auto dest: set_takeWhileD)
  ultimately show ?thesis using r2 by (auto simp: list_all_iff)
qed

lemma not_isSpace_key_char: "isDigit c \<or> c = 46 \<Longrightarrow> \<not> isSpace c"
  by (auto simp: isDigit_def isSpace_def)

lemma trim_id: "\<forall>c\<in>set s. \<not> isSpace c \<Longrightarrow> trim s = s"
proof -
  assume a: "\<forall>c\<in>set s. \<not> isSpace c"
  have g: "\<And>xs. \<forall>c\<in>set xs. \<not> isSpace c \<Longrightarrow> dropWhile isSpace xs = xs"
    subgoal for xs by (cases xs) auto
    done
  from a have "dropWhile isSpace s = s" by (rule g)
  moreover from a have "dropWhile isSpace (rev s) = rev s" by (intro g) simp
  ultimately show ?thesis by (simp add: trim_def trimStart_def trimEnd_def)
qed

lemma isDateKey_trim: "isDateKey d \<Longrightarrow> trim d = d"
  using isDateKey_chars not_isSpace_key_char trim_id by blast

lemma isDateKey_noNL: "isDateKey d \<Longrightarrow> NL \<notin> set d"
  using isDateKey_chars by (fastforce simp: NL_def isDigit_def)

lemma str_dash [simp]: "str ''- '' = [45, 32]"
  by (simp add: str_def)

lemma bullet_not_key: "startsWith e (str ''- '') \<Longrightarrow> \<not> isDateKey e"
  by (auto simp: startsWith_def prefix_def isDateKey_def digits12_def isDigit_def)

lemma headers_trim [simp]: "headers (trim s) = headers s"
  by (simp add: headers_def trims_trim)

lemma hasDateHeader_headers: "isDateKey d \<Longrightarrow> hasDateHeader s d \<longleftrightarrow> d \<in> set (headers s)"
  by (auto simp: hasDateHeader_def headers_def list_ex_iff)

lemma mem_filter_eq: "d \<in> set xs \<longleftrightarrow> filter (\<lambda>t. t = d) xs \<noteq> []"
  by (induction xs) auto

lemma hasDateHeader_trim: "d \<noteq> [] \<Longrightarrow> hasDateHeader (trim s) d = hasDateHeader s d"
proof -
  assume "d \<noteq> []"
  then have "filter (\<lambda>t. t = d) (map trim (split (trim s))) = filter (\<lambda>t. t = d) (map trim (split s))"
    by (intro trims_trim) auto
  then have "d \<in> set (map trim (split (trim s))) \<longleftrightarrow> d \<in> set (map trim (split s))"
    by (simp only: mem_filter_eq)
  then show ?thesis by (auto simp: hasDateHeader_def list_ex_iff)
qed

lemma findIndex_Some:
  "findIndex P xs = Some i \<Longrightarrow> i < length xs \<and> P (xs ! i) \<and> (\<forall>j<i. \<not> P (xs ! j))"
proof (induction xs arbitrary: i)
  case Nil
  then show ?case by simp
next
  case (Cons x xs)
  show ?case
  proof (cases "P x")
    case True
    with Cons.prems show ?thesis by simp
  next
    case False
    with Cons.prems obtain k where k: "findIndex P xs = Some k" "i = Suc k" by auto
    with Cons.IH [of k] False show ?thesis by (auto simp: less_Suc_eq_0_disj)
  qed
qed

lemma findIndex_None: "findIndex P xs = None \<longleftrightarrow> (\<forall>x\<in>set xs. \<not> P x)"
  by (induction xs) auto

lemma trim_shape: "trim s = [] \<or> (\<not> isSpace (hd (trim s)) \<and> \<not> isSpace (last (trim s)))"
proof -
  define t where "t = dropWhile isSpace s"
  define u where "u = dropWhile isSpace (rev t)"
  have ts: "trim s = rev u" by (simp add: trim_def trimStart_def trimEnd_def t_def u_def)
  show ?thesis
  proof (cases "u = []")
    case True
    with ts show ?thesis by simp
  next
    case False
    then have hu: "\<not> isSpace (hd u)" unfolding u_def by (rule hd_dropWhile)
    have "rev t = takeWhile isSpace (rev t) @ u" by (simp add: u_def)
    then have tt: "t = rev u @ rev (takeWhile isSpace (rev t))"
      by (metis rev_append rev_rev_ident)
    from False tt have "t \<noteq> []" by auto
    then have "\<not> isSpace (hd t)" unfolding t_def by (rule hd_dropWhile)
    moreover from False tt have "hd t = hd (rev u)" by (metis hd_append2 rev_is_Nil_conv)
    moreover from False have "last (rev u) = hd u" by (simp add: last_rev)
    ultimately show ?thesis using ts hu by simp
  qed
qed

lemma trimmed_iff: "trim s = s \<longleftrightarrow> s = [] \<or> (\<not> isSpace (hd s) \<and> \<not> isSpace (last s))"
proof
  assume "trim s = s"
  with trim_shape [of s] show "s = [] \<or> (\<not> isSpace (hd s) \<and> \<not> isSpace (last s))" by simp
next
  assume a: "s = [] \<or> (\<not> isSpace (hd s) \<and> \<not> isSpace (last s))"
  show "trim s = s"
  proof (cases "s = []")
    case True
    then show ?thesis by simp
  next
    case False
    with a have h: "\<not> isSpace (hd s)" "\<not> isSpace (last s)" by auto
    from False h have "dropWhile isSpace s = s" by (cases s) auto
    moreover from False h have "dropWhile isSpace (rev s) = rev s"
      by (cases "rev s") (auto simp: last_rev [symmetric] hd_rev)
    ultimately show ?thesis by (simp add: trim_def trimStart_def trimEnd_def)
  qed
qed

lemma trim_idem [simp]: "trim (trim s) = trim s"
  using trim_shape [of s] by (simp add: trimmed_iff)

lemma set_trim: "set (trim s) \<subseteq> set s"
proof -
  have "set (trim s) \<subseteq> set (dropWhile isSpace s)"
    unfolding trim_def trimStart_def trimEnd_def
    by (metis set_dropWhileD set_rev subsetI)
  then show ?thesis by (meson set_dropWhileD subset_iff)
qed

lemma okGroups_Nil [simp]: "okGroups []"
  by (simp add: okGroups_def)

lemma map_fst_pushEvent [simp]: "map fst (pushEvent de k e) = map fst de"
  by (induction de) (auto simp: pushEvent_def)

lemma okGroups_snoc:
  "okGroups de \<Longrightarrow> isDateKey d \<Longrightarrow> d \<notin> fst ` set de \<Longrightarrow> okGroups (de @ [(d, [])])"
  by (auto simp: okGroups_def okEvents_def)

lemma findIndex_first:
  "P x \<Longrightarrow> \<forall>y\<in>set pre. \<not> P y \<Longrightarrow> findIndex P (pre @ x # xs) = Some (length pre)"
  by (induction pre) auto

lemma dropWhile_body:
  "\<forall>l\<in>set body. Q l \<Longrightarrow> rest = [] \<or> \<not> Q (hd rest) \<Longrightarrow> dropWhile Q (body @ rest) = rest"
  by (induction body) (auto simp: dropWhile_eq_self_iff)

lemma overwriteSingleDate_existing:
  assumes "split doc = pre @ h # body @ rest"
    and "trim h = d"
    and "\<forall>l\<in>set pre. trim l \<noteq> d"
    and "\<forall>l\<in>set body. \<not> isDateKey (trim l)"
    and "rest = [] \<or> isDateKey (trim (hd rest))"
  shows "overwriteSingleDate today doc new d = join (pre @ h # new @ rest)"
proof -
  have fi: "findIndex (\<lambda>line. trim line = d) (split doc) = Some (length pre)"
    unfolding assms(1) using assms(2,3) by (intro findIndex_first) auto
  have tk: "take (length pre + 1) (split doc) = pre @ [h]" by (simp add: assms(1))
  have dr: "drop (length pre + 1) (split doc) = body @ rest" by (simp add: assms(1))
  have dw: "dropWhile (\<lambda>l. \<not> isDateKey (trim l)) (body @ rest) = rest"
    using assms(4,5) by (intro dropWhile_body) auto
  show ?thesis
    unfolding overwriteSingleDate_def Let_def fi option.case tk dr dw by simp
qed

lemma pushEvent_single: "pushEvent [(d, acc)] d e = [(d, acc @ [e])]"
  by (simp add: pushEvent_def)

lemma parseBullets_events:
  "okBullets es \<Longrightarrow> d \<noteq> [] \<Longrightarrow> parseBullets d [(d, acc)] es = [(d, acc @ es)]"
proof (induction es arbitrary: acc)
  case Nil
  then show ?case by simp
next
  case (Cons e es)
  then have e: "trim e = e" "startsWith e (str ''- '')" and ok: "okBullets es"
    by (auto simp: okBullets_def)
  from e have nk: "\<not> isDateKey (trim e)" by (simp add: bullet_not_key)
  show ?case
    using Cons.IH [OF ok Cons.prems(2), of "acc @ [e]"] e nk Cons.prems(2)
    by (simp add: Let_def pushEvent_single)
qed

lemma parseBullets_single:
  assumes "isDateKey d" "okBullets es"
  shows "parseBullets [] [] (d # es) = [(d, es)]"
proof -
  have "d \<noteq> []" using assms(1) by auto
  from parseBullets_events [OF assms(2) this, of "[]"] show ?thesis
    using assms(1) by (simp add: isDateKey_trim Let_def)
qed

lemma hasMultipleDates_Cons: "isDateKey d \<Longrightarrow> hasMultipleDates (d # es)"
  by (simp add: hasMultipleDates_def isDateKey_trim)

lemma appendToJournal_group:
  "isDateKey d \<Longrightarrow> okBullets es \<Longrightarrow> appendToJournal today r (d # es) = mergeSection (trim r) (d, es)"
  by (simp add: appendToJournal_def hasMultipleDates_Cons mergeMultiDateContent_def parseBullets_single
        del: parseBullets.simps)

lemma overwriteSingleDate_missing:
  assumes "isDateKey d" "okBullets es" "es \<noteq> []" "\<not> hasDateHeader doc d"
  shows "overwriteSingleDate today doc es d = appendToJournal today doc (d # es)"
    and "appendToJournal today doc (d # es) =
         (if trim doc \<noteq> [] then trim doc @ [NL, NL] else []) @ d @ [NL] @ join es"
proof -
  from assms(4) have "findIndex (\<lambda>line. trim line = d) (split doc) = None"
    by (auto simp: findIndex_None hasDateHeader_def list_ex_iff)
  then show "overwriteSingleDate today doc es d = appendToJournal today doc (d # es)"
    by (simp add: overwriteSingleDate_def)
  have "d \<noteq> []" using assms(1) by auto
  then have "\<not> hasDateHeader (trim doc) d" using assms(4) by (simp add: hasDateHeader_trim)
  then show "appendToJournal today doc (d # es) =
         (if trim doc \<noteq> [] then trim doc @ [NL, NL] else []) @ d @ [NL] @ join es"
    using assms(1,2,3) by (simp add: appendToJournal_group mergeSection_def)
qed

lemma section_decomposition:
  assumes "hasDateHeader doc d"
  shows "\<exists>pre h body rest.
           split doc = pre @ h # body @ rest \<and> trim h = d \<and> list_all (\<lambda>l. trim l \<noteq> d) pre \<and>
           list_all (\<lambda>l. \<not> isDateKey (trim l)) body \<and> (rest = [] \<or> isDateKey (trim (hd rest)))"
proof -
  from assms have "\<not> (\<forall>x\<in>set (split doc). trim x \<noteq> d)"
    by (auto simp: hasDateHeader_def list_ex_iff)
  then obtain i where i: "findIndex (\<lambda>line. trim line = d) (split doc) = Some i"
    using findIndex_None [of "\<lambda>line. trim line = d" "split doc"]
    by (cases "findIndex (\<lambda>line. trim line = d) (split doc)") auto
  from findIndex_Some [OF i] have il: "i < length (split doc)" and hi: "trim (split doc ! i) = d"
    and bef: "\<forall>j<i. trim (split doc ! j) \<noteq> d" by auto
  define Q where "Q = (\<lambda>l. \<not> isDateKey (trim l))"
  define tl where "tl = drop (Suc i) (split doc)"
  have "split doc = take i (split doc) @ split doc ! i # takeWhile Q tl @ dropWhile Q tl"
    using il by (simp add: tl_def id_take_nth_drop [symmetric])
  moreover have "list_all (\<lambda>l. trim l \<noteq> d) (take i (split doc))"
    using bef il by (auto simp: list_all_length)
  moreover have "list_all Q (takeWhile Q tl)"
    by (auto simp: list_all_iff dest: set_takeWhileD)
  moreover have "dropWhile Q tl = [] \<or> \<not> Q (hd (dropWhile Q tl))"
    using hd_dropWhile [of Q tl] by blast
  ultimately show ?thesis using hi unfolding Q_def by blast
qed

lemma keys_parseBullets:
  "\<forall>d\<in>set (map fst de). isDateKey d \<Longrightarrow> \<forall>d\<in>set (map fst (parseBullets cur de bs)). isDateKey d"
proof (induction bs arbitrary: cur de)
  case Nil
  then show ?case by simp
next
  case (Cons b bs)
  show ?case
  proof (cases "isDateKey (trim b)")
    case True
    with Cons.prems have "\<forall>d\<in>set (map fst (if trim b \<in> fst ` set de then de else de @ [(trim b, [])])). isDateKey d"
      by auto
    from Cons.IH [OF this] True show ?thesis by (simp add: Let_def)
  next
    case False
    from Cons.prems have "\<forall>d\<in>set (map fst (pushEvent de cur (trim b))). isDateKey d" by simp
    from Cons.IH [OF this] Cons.IH [OF Cons.prems] False show ?thesis by (simp add: Let_def)
  qed
qed

lemma appendToJournal_multi_clock:
  "hasMultipleDates bs \<Longrightarrow> appendToJournal t1 doc bs = appendToJournal t2 doc bs"
  by (simp add: appendToJournal_def)

lemma overwriteSection_key_clock:
  "isDateKey d \<Longrightarrow> overwriteSection t1 ds r (d, es) = overwriteSection t2 ds r (d, es)"
  using appendToJournal_multi_clock [OF hasMultipleDates_Cons, of d t1 r es t2]
  by (simp add: overwriteSection_def overwriteSingleDate_def Let_def split: option.splits)

lemma foldl_overwriteSection_clock:
  "\<forall>d\<in>set (map fst de). isDateKey d \<Longrightarrow>
   foldl (overwriteSection t1 ds) r de = foldl (overwriteSection t2 ds) r de"
proof (induction de arbitrary: r)
  case Nil
  then show ?case by simp
next
  case (Cons g de)
  obtain d es where g: "g = (d, es)" by (cases g)
  with Cons.prems have "isDateKey d" by simp
  then have "overwriteSection t1 ds r g = overwriteSection t2 ds r g"
    unfolding g by (rule overwriteSection_key_clock)
  with Cons show ?case by simp
qed

lemma same_header_clock:
  assumes "formatDateHeader t1 = formatDateHeader t2"
  shows "appendToJournal t1 = appendToJournal t2"
    and "overwriteJournal t1 = overwriteJournal t2"
    and "getAffectedDates t1 = getAffectedDates t2"
proof -
  show a: "appendToJournal t1 = appendToJournal t2"
    using assms by (simp add: appendToJournal_def fun_eq_iff)
  have s: "overwriteSingleDate t1 = overwriteSingleDate t2"
    by (simp add: overwriteSingleDate_def fun_eq_iff a Let_def split: option.splits)
  have sec: "overwriteSection t1 = overwriteSection t2"
    by (simp add: overwriteSection_def fun_eq_iff a s)
  have m: "overwriteMultiDateContent t1 = overwriteMultiDateContent t2"
    by (simp add: overwriteMultiDateContent_def fun_eq_iff sec)
  show "overwriteJournal t1 = overwriteJournal t2"
    using assms by (simp add: overwriteJournal_def fun_eq_iff a s m Let_def)
  show "getAffectedDates t1 = getAffectedDates t2"
    using assms by (simp add: getAffectedDates_def fun_eq_iff)
qed

section \<open>Weekday names in the date normalizer\<close>

lemma daysBefore_add: "daysBefore (k + j) d = daysBefore j (daysBefore k d)"
  by (simp add: daysBefore_def funpow_add add.commute)

lemma weekday_pipeline:
  "list_all (\<lambda>i. list_all (\<lambda>w.
      w \<noteq> [] \<and> \<not> isDateKey w \<and> fullDateMatch w = None \<and> shortDateMatch w = None \<and>
      \<not> includesStr (toLowerCase w) (str ''today'') \<and> \<not> includesStr (toLowerCase w) (str ''yesterday'') \<and>
      \<not> includesStr (toLowerCase w) (str ''last'') \<and>
      (case dayMatch (toLowerCase w) of
         None \<Rightarrow> False
       | Some g \<Rightarrow> findIndex (\<lambda>day. startsWith day (toLowerCase g)) dayNames = Some i))
    (weekdaySpellings i)) [0 ..< 7]"
  by code_simp

lemma last_weekday_pipeline:
  "list_all (\<lambda>i. list_all (\<lambda>w.
      str ''last '' @ w \<noteq> [] \<and> \<not> isDateKey (str ''last '' @ w) \<and> fullDateMatch (str ''last '' @ w) = None \<and>
      shortDateMatch (str ''last '' @ w) = None \<and>
      \<not> includesStr (toLowerCase (str ''last '' @ w)) (str ''today'') \<and>
      \<not> includesStr (toLowerCase (str ''last '' @ w)) (str ''yesterday'') \<and>
      includesStr (toLowerCase (str ''last '' @ w)) (str ''last'') \<and>
      (case dayMatch (toLowerCase (str ''last '' @ w)) of
         None \<Rightarrow> False
       | Some g \<Rightarrow> findIndex (\<lambda>day. startsWith day (toLowerCase g)) dayNames = Some i))
    (weekdaySpellings i)) [0 ..< 7]"
  by code_simp

lemma daysBack_nat:
  "nat (if int a - int i \<le> 0 then int a - int i + 7 else int a - int i) = bareDaysBack t i"
  if "getDay t = a" "i < 7"
  using that by (auto simp: bareDaysBack_def)

lemma daysBefore_0: "daysBefore 0 d = d"
  by (simp add: daysBefore_def)

lemma daysBefore_numeral: "daysBefore (numeral n) d = daysBefore (pred_numeral n) (prevDay d)"
  by (simp add: daysBefore_def numeral_eq_Suc funpow_swap1)

lemma daysBefore_Suc: "daysBefore (Suc k) d = daysBefore k (prevDay d)"
  by (simp add: daysBefore_def funpow_swap1)

lemma prevDay_literal:
  "prevDay \<lparr>getFullYear = y, getMonth = m, getDate = d, getDay = w\<rparr> =
     (if d > 1 then \<lparr>getFullYear = y, getMonth = m, getDate = d - 1, getDay = (w + 6) mod 7\<rparr>
      else if m > 0 then \<lparr>getFullYear = y, getMonth = m - 1, getDate = daysInMonth y (m - 1), getDay = (w + 6) mod 7\<rparr>
      else \<lparr>getFullYear = y - 1, getMonth = 11, getDate = 31, getDay = (w + 6) mod 7\<rparr>)"
  by (simp add: prevDay_def Let_def)

lemmas daysBefore_eval = daysBefore_0 daysBefore_numeral daysBefore_Suc prevDay_literal daysInMonth_def
  isLeapYear_def

lemma normalize_weekday:
  assumes "i < 7" and "w \<in> set (weekdaySpellings i)"
  shows "normalizeDateFormat today w = Some (fmtDate (daysBefore (bareDaysBack today i) today))"
    and "normalizeDateFormat today (str ''last '' @ w)
         = Some (fmtDate (daysBefore (bareDaysBack today i + 7) today))"
proof -
  from assms have iw: "i \<in> set [0 ..< 7]" by simp
  from weekday_pipeline iw assms(2) have p:
    "w \<noteq> []" "\<not> isDateKey w" "fullDateMatch w = None" "shortDateMatch w = None"
    "\<not> includesStr (toLowerCase w) (str ''today'')" "\<not> includesStr (toLowerCase w) (str ''yesterday'')"
    "\<not> includesStr (toLowerCase w) (str ''last'')"
    "(case dayMatch (toLowerCase w) of
         None \<Rightarrow> False
       | Some g \<Rightarrow> findIndex (\<lambda>day. startsWith day (toLowerCase g)) dayNames = Some i)"
    unfolding list_all_iff by blast+
  from p(8) obtain g where g: "dayMatch (toLowerCase w) = Some g"
    "findIndex (\<lambda>day. startsWith day (toLowerCase g)) dayNames = Some i"
    by (auto split: option.splits)
  show "normalizeDateFormat today w = Some (fmtDate (daysBefore (bareDaysBack today i) today))"
    unfolding normalizeDateFormat_def Let_def
    using p(1-7) g daysBack_nat [OF refl assms(1), of today] by simp
  from last_weekday_pipeline iw assms(2) have q:
    "str ''last '' @ w \<noteq> []" "\<not> isDateKey (str ''last '' @ w)" "fullDateMatch (str ''last '' @ w) = None"
    "shortDateMatch (str ''last '' @ w) = None"
    "\<not> includesStr (toLowerCase (str ''last '' @ w)) (str ''today'')"
    "\<not> includesStr (toLowerCase (str ''last '' @ w)) (str ''yesterday'')"
    "includesStr (toLowerCase (str ''last '' @ w)) (str ''last'')"
    "(case dayMatch (toLowerCase (str ''last '' @ w)) of
         None \<Rightarrow> False
       | Some g \<Rightarrow> findIndex (\<lambda>day. startsWith day (toLowerCase g)) dayNames = Some i)"
    unfolding list_all_iff by blast+
  from q(8) obtain g' where g': "dayMatch (toLowerCase (str ''last '' @ w)) = Some g'"
    "findIndex (\<lambda>day. startsWith day (toLowerCase g')) dayNames = Some i"
    by (auto split: option.splits)
  have n: "nat ((if int (getDay today) - int i \<le> 0 then int (getDay today) - int i + 7
                 else int (getDay today) - int i) + 7) = bareDaysBack today i + 7"
    using assms(1) by (auto simp: bareDaysBack_def)
  show "normalizeDateFormat today (str ''last '' @ w)
         = Some (fmtDate (daysBefore (bareDaysBack today i + 7) today))"
    unfolding normalizeDateFormat_def Let_def
    using q(1-7) g' n by simp
qed

section \<open>The cleanup of a bullet\<close>

lemma matchWord_suffix: "matchWord w s = Some r \<Longrightarrow> suffix r s"
  by (auto simp: matchWord_def suffix_drop split: if_splits)

lemma matchSpaces_suffix: "matchSpaces s = Some r \<Longrightarrow> suffix r s"
proof -
  assume a: "matchSpaces s = Some r"
  then obtain c t where s: "s = c # t" "r = dropWhile isSpace t"
    by (auto simp: matchSpaces_def split: list.splits if_splits)
  have "suffix (dropWhile isSpace t) t" by (rule suffix_dropWhile)
  with s show ?thesis by (simp add: suffix_Cons)
qed

lemma matchPrefix_suffix: "matchPrefix p s = Some r \<Longrightarrow> suffix r s"
proof (induction p arbitrary: s)
  case Nil
  then show ?case by simp
next
  case (Cons w ws)
  from Cons.prems obtain r1 r2 where m: "matchWord w s = Some r1" "matchSpaces r1 = Some r2"
    "matchPrefix ws r2 = Some r"
    by (auto split: option.splits)
  from Cons.IH [OF m(3)] matchSpaces_suffix [OF m(2)] matchWord_suffix [OF m(1)]
  show ?case using suffix_order.trans by blast
qed

lemma replacePrefix_suffix: "suffix (replacePrefix s p) s"
  by (auto simp: replacePrefix_def matchPrefix_suffix split: option.splits)

lemma foldl_replacePrefix_suffix: "suffix (foldl replacePrefix s ps) s"
proof (induction ps arbitrary: s)
  case Nil
  then show ?case by simp
next
  case (Cons p ps)
  from Cons.IH [of "replacePrefix s p"] replacePrefix_suffix [of s p]
  show ?case using suffix_order.trans by auto
qed

lemma foldl_replacePrefix_none:
  "list_all (\<lambda>p. matchPrefix p r = None) ps \<Longrightarrow> foldl replacePrefix r ps = r"
  by (induction ps) (auto simp: replacePrefix_def)

lemma foldl_replacePrefix_first:
  "list_all (\<lambda>p. matchPrefix p (removeFirstMatch ps s) = None) ps \<Longrightarrow>
   foldl replacePrefix s ps = removeFirstMatch ps s"
proof (induction ps arbitrary: s)
  case Nil
  then show ?case by simp
next
  case (Cons p ps)
  show ?case
  proof (cases "matchPrefix p s")
    case None
    with Cons show ?thesis by (simp add: replacePrefix_def)
  next
    case (Some r)
    with Cons.prems have "list_all (\<lambda>p. matchPrefix p r = None) ps" by simp
    then have "foldl replacePrefix r ps = r" by (rule foldl_replacePrefix_none)
    moreover from Some have "replacePrefix s p = r" by (simp add: replacePrefix_def)
    ultimately show ?thesis using Some by simp
  qed
qed

lemma removeTrailingPunct_run:
  "\<exists>run. s = removeTrailingPunct s @ run \<and> list_all isPunct run"
proof -
  have "rev s = takeWhile isPunct (rev s) @ dropWhile isPunct (rev s)" by simp
  then have "s = rev (dropWhile isPunct (rev s)) @ rev (takeWhile isPunct (rev s))"
    by (metis rev_append rev_rev_ident)
  moreover have "list_all isPunct (rev (takeWhile isPunct (rev s)))"
    by (auto simp: list_all_iff dest: set_takeWhileD)
  ultimately show ?thesis unfolding removeTrailingPunct_def by blast
qed

lemma removeTrailingPunct_last:
  "removeTrailingPunct s = [] \<or> \<not> isPunct (last (removeTrailingPunct s))"
proof (cases "dropWhile isPunct (rev s) = []")
  case True
  then show ?thesis by (simp add: removeTrailingPunct_def)
next
  case False
  then have "\<not> isPunct (hd (dropWhile isPunct (rev s)))" by (rule hd_dropWhile)
  with False show ?thesis by (simp add: removeTrailingPunct_def last_rev)
qed

section \<open>Header lines under overwrite and in the single-date format\<close>

lemma okBullets_pushEvent:
  assumes "\<forall>(d, es)\<in>set de. okBullets es" and "trim e = e" and "startsWith e (str ''- '')"
  shows "\<forall>(d, es)\<in>set (pushEvent de k e). okBullets es"
proof (clarify)
  fix d es assume "(d, es) \<in> set (pushEvent de k e)"
  then obtain d0 es0 where m: "(d0, es0) \<in> set de" "(d, es) = (if d0 = k then (d0, es0 @ [e]) else (d0, es0))"
    unfolding pushEvent_def by auto
  from assms(1) m(1) have "okBullets es0" by auto
  with m(2) assms(2,3) show "okBullets es" by (auto simp: okBullets_def split: if_splits)
qed

lemma okBullets_parseBullets:
  "\<forall>(d, es)\<in>set de. okBullets es \<Longrightarrow> \<forall>(d, es)\<in>set (parseBullets cur de bs). okBullets es"
proof (induction bs arbitrary: cur de)
  case Nil
  then show ?case by simp
next
  case (Cons b bs)
  show ?case
  proof (cases "isDateKey (trim b)")
    case True
    from Cons.prems have "\<forall>(d, es)\<in>set (if trim b \<in> fst ` set de then de else de @ [(trim b, [])]). okBullets es"
      by (auto simp: okBullets_def)
    from Cons.IH [OF this] True show ?thesis by (simp add: Let_def)
  next
    case False
    show ?thesis
    proof (cases "startsWith (trim b) (str ''- '') \<and> cur \<noteq> []")
      case True
      then have "\<forall>(d, es)\<in>set (pushEvent de cur (trim b)). okBullets es"
        using Cons.prems by (intro okBullets_pushEvent) simp_all
      from Cons.IH [OF this] True False show ?thesis by (simp add: Let_def)
    next
      case no: False
      with False Cons.IH [OF Cons.prems] show ?thesis by (auto simp: Let_def)
    qed
  qed
qed

lemma okGroups_distinct_new:
  "okGroups de \<Longrightarrow> distinct (filter (\<lambda>d. d \<notin> H) (map fst (filter (\<lambda>(d, es). es \<noteq> []) de)))"
  by (simp add: okGroups_def distinct_map_filter)

lemma showNat_digits: "\<forall>c\<in>set (showNat n). isDigit c"
proof (induction n rule: showNat.induct)
  case (1 n)
  show ?case
  proof (cases "n < 10")
    case True
    then show ?thesis by (subst showNat.simps) (simp add: isDigit_def)
  next
    case False
    have "n mod 10 < 10" by simp
    then have "isDigit (48 + n mod 10)" by (simp add: isDigit_def)
    with False 1 show ?thesis by (subst showNat.simps) simp
  qed
qed

lemma showNat_nonempty: "showNat n \<noteq> []"
  by (subst showNat.simps) simp

lemma fmtDate_chars: "\<forall>c\<in>set (fmtDate d). isDigit c \<or> c = 46 \<or> c = 45"
  using showNat_digits by (auto simp: fmtDate_def showInt_def)

lemma formatDateHeader_props:
  "NL \<notin> set (formatDateHeader today)" "trim (formatDateHeader today) = formatDateHeader today"
  "formatDateHeader today \<noteq> []"
proof -
  have c: "\<forall>c\<in>set (formatDateHeader today). isDigit c \<or> c = 46 \<or> c = 45"
    unfolding formatDateHeader_def by (rule fmtDate_chars)
  then show "NL \<notin> set (formatDateHeader today)" by (auto simp: NL_def isDigit_def)
  from c have "\<forall>c\<in>set (formatDateHeader today). \<not> isSpace c" by (auto simp: isSpace_def isDigit_def)
  then show "trim (formatDateHeader today) = formatDateHeader today" by (rule trim_id)
  show "formatDateHeader today \<noteq> []" by (simp add: formatDateHeader_def fmtDate_def showNat_nonempty)
qed

lemma trim_not_endsWith_NL: "\<not> endsWith (trim s) [NL]"
proof
  assume "endsWith (trim s) [NL]"
  then obtain t where t: "trim s = t @ [NL]" by (auto simp: endsWith_def suffix_def)
  then have "trim s \<noteq> []" "last (trim s) = NL" by simp_all
  with trim_shape [of s] show False by simp
qed

lemma hasDateHeader_nonempty: "d \<noteq> [] \<Longrightarrow> hasDateHeader doc d \<Longrightarrow> trim doc \<noteq> []"
proof
  assume d: "d \<noteq> []" and h: "hasDateHeader doc d" and e: "trim doc = []"
  from h d have "hasDateHeader (trim doc) d" by (simp add: hasDateHeader_trim)
  with e d show False by (simp add: hasDateHeader_def)
qed

lemma headers_Nil [simp]: "headers [] = []"
  by (simp add: headers_def)

lemma addsFresh_refl: "addsFresh doc doc"
  unfolding addsFresh_def by (rule exI [of _ "[]"]) simp

lemma addsFresh_same: "headers out = headers doc \<Longrightarrow> addsFresh doc out"
  unfolding addsFresh_def by (rule exI [of _ "[]"]) simp

lemma addsFresh_groups:
  assumes "okGroups de"
    and "headers out = headers doc @ filter (\<lambda>d. d \<notin> set (headers doc)) (map fst (filter (\<lambda>(d, es). es \<noteq> []) de))"
  shows "addsFresh doc out"
  unfolding addsFresh_def
  by (rule exI [of _ "filter (\<lambda>d. d \<notin> set (headers doc)) (map fst (filter (\<lambda>(d, es). es \<noteq> []) de))"])
     (use assms okGroups_distinct_new [OF assms(1)] in auto)

lemma count_list_distinct: "distinct N \<Longrightarrow> count_list N k \<le> 1"
  by (induction N) auto

lemma addsFresh_count:
  assumes "addsFresh doc out"
  shows "k \<in> set (headers doc) \<longrightarrow> count_list (headers out) k = count_list (headers doc) k"
    and "count_list (headers out) k \<le> max 1 (count_list (headers doc) k)"
proof -
  from assms obtain N where N: "headers out = headers doc @ N" "distinct N"
    "set N \<inter> set (headers doc) = {}" unfolding addsFresh_def by blast
  show "k \<in> set (headers doc) \<longrightarrow> count_list (headers out) k = count_list (headers doc) k"
    using N by (auto simp: count_list_0_iff)
  show "count_list (headers out) k \<le> max 1 (count_list (headers doc) k)"
  proof (cases "k \<in> set (headers doc)")
    case True
    with N have "count_list N k = 0" by (auto simp: count_list_0_iff)
    with N(1) show ?thesis by simp
  next
    case False
    then have "count_list (headers doc) k = 0" by (simp add: count_list_0_iff)
    with N(1) count_list_distinct [OF N(2), of k] show ?thesis by simp
  qed
qed

lemma mergeSection_first:
  assumes "split r = pre @ h # rest" and "trim h = d" and "list_all (\<lambda>l. trim l \<noteq> d) pre" and "es \<noteq> []"
  shows "mergeSection r (d, es) =
         join (pre @ h # takeWhile (\<lambda>l. startsWith l (str ''- '') \<or> trim l = []) rest @ es
               @ dropWhile (\<lambda>l. startsWith l (str ''- '') \<or> trim l = []) rest)"
proof -
  have has: "hasDateHeader r d" using assms(1,2) by (auto simp: hasDateHeader_def list_ex_iff)
  have fi: "findIndex (\<lambda>line. trim line = d) (split r) = Some (length pre)"
    unfolding assms(1) using assms(2,3) by (intro findIndex_first) (auto simp: list_all_iff)
  show ?thesis
    unfolding mergeSection_def using has assms(4) fi
    by (simp add: Let_def assms(1) takeWhile_eq_take [symmetric] dropWhile_eq_drop [symmetric])
qed

section \<open>What the parse loop keeps\<close>

lemma retainedFrom_mono: "retainedFrom xs e \<Longrightarrow> retainedFrom (xs @ ys) e"
  unfolding retainedFrom_def by (metis append.assoc append_Cons)

lemma retained_parseBullets:
  assumes "\<forall>(d, es)\<in>set de. \<forall>e\<in>set es. retainedFrom seen e"
    and "cur \<noteq> [] \<longrightarrow> list_ex (\<lambda>h. isDateKey (trim h)) seen"
  shows "\<forall>(d, es)\<in>set (parseBullets cur de bs). \<forall>e\<in>set es. retainedFrom (seen @ bs) e"
  using assms
proof (induction bs arbitrary: seen cur de)
  case Nil
  then show ?case by simp
next
  case (Cons b bs)
  have old: "\<forall>(d, es)\<in>set de. \<forall>e\<in>set es. retainedFrom (seen @ [b]) e"
    using Cons.prems(1) retainedFrom_mono by blast
  have app: "seen @ b # bs = (seen @ [b]) @ bs" by simp
  show ?case
  proof (cases "isDateKey (trim b)")
    case True
    have 1: "\<forall>(d, es)\<in>set (if trim b \<in> fst ` set de then de else de @ [(trim b, [])]).
               \<forall>e\<in>set es. retainedFrom (seen @ [b]) e"
      using old by auto
    have 2: "trim b \<noteq> [] \<longrightarrow> list_ex (\<lambda>h. isDateKey (trim h)) (seen @ [b])"
      using True by simp
    from Cons.IH [OF 1 2] True show ?thesis unfolding app by (simp add: Let_def)
  next
    case False
    have 2: "cur \<noteq> [] \<longrightarrow> list_ex (\<lambda>h. isDateKey (trim h)) (seen @ [b])"
      using Cons.prems(2) by simp
    show ?thesis
    proof (cases "startsWith (trim b) (str ''- '') \<and> cur \<noteq> []")
      case True
      then have new: "retainedFrom (seen @ [b]) (trim b)"
        unfolding retainedFrom_def using Cons.prems(2) by auto
      have 1: "\<forall>(d, es)\<in>set (pushEvent de cur (trim b)). \<forall>e\<in>set es. retainedFrom (seen @ [b]) e"
      proof (clarify)
        fix d es e assume "(d, es) \<in> set (pushEvent de cur (trim b))" and e: "e \<in> set es"
        then obtain d0 es0 where m: "(d0, es0) \<in> set de"
          "(d, es) = (if d0 = cur then (d0, es0 @ [trim b]) else (d0, es0))"
          unfolding pushEvent_def by auto
        with old new e show "retainedFrom (seen @ [b]) e" by (auto split: if_splits)
      qed
      from Cons.IH [OF 1 2] True False show ?thesis unfolding app by (simp add: Let_def)
    next
      case no: False
      from Cons.IH [OF old 2] no False show ?thesis unfolding app by (auto simp: Let_def)
    qed
  qed
qed

lemma parseBullets_discard:
  assumes "\<not> isDateKey (trim b)"
    and "\<not> startsWith (trim b) (str ''- '') \<or> (cur = [] \<and> \<not> list_ex (\<lambda>h. isDateKey (trim h)) xs)"
  shows "parseBullets cur de (xs @ b # ys) = parseBullets cur de (xs @ ys)"
  using assms(2)
proof (induction xs arbitrary: cur de)
  case Nil
  with assms(1) show ?case by (auto simp: Let_def)
next
  case (Cons x xs)
  show ?case
  proof (cases "isDateKey (trim x)")
    case True
    with Cons.prems have "\<not> startsWith (trim b) (str ''- '')" by auto
    then show ?thesis using Cons.IH True by (simp add: Let_def)
  next
    case False
    with Cons.prems have "\<not> startsWith (trim b) (str ''- '') \<or> (cur = [] \<and> \<not> list_ex (\<lambda>h. isDateKey (trim h)) xs)"
      by auto
    then show ?thesis using Cons.IH False by (simp add: Let_def)
  qed
qed

lemma nonempty_pushEvent:
  "(d, es) \<in> set de \<Longrightarrow> es \<noteq> [] \<Longrightarrow> \<exists>es'. (d, es') \<in> set (pushEvent de k e) \<and> es' \<noteq> []"
  unfolding pushEvent_def by (cases "d = k") force+

lemma nonempty_parseBullets:
  "(d, es) \<in> set de \<Longrightarrow> es \<noteq> [] \<Longrightarrow> \<exists>es'. (d, es') \<in> set (parseBullets cur de bs) \<and> es' \<noteq> []"
proof (induction bs arbitrary: cur de es)
  case Nil
  then show ?case by auto
next
  case (Cons b bs)
  show ?case
  proof (cases "isDateKey (trim b)")
    case True
    from Cons.prems have "(d, es) \<in> set (if trim b \<in> fst ` set de then de else de @ [(trim b, [])])"
      by simp
    from Cons.IH [OF this Cons.prems(2)] True show ?thesis by (simp add: Let_def)
  next
    case False
    from nonempty_pushEvent [OF Cons.prems] obtain es1 where
      "(d, es1) \<in> set (pushEvent de cur (trim b))" "es1 \<noteq> []" by blast
    from Cons.IH [OF this] Cons.IH [OF Cons.prems] False show ?thesis by (simp add: Let_def)
  qed
qed

lemma filter_pushEvent:
  "k \<noteq> d \<Longrightarrow> filter (\<lambda>g. fst g \<noteq> d) (pushEvent de k e) = pushEvent (filter (\<lambda>g. fst g \<noteq> d) de) k e"
  by (induction de) (auto simp: pushEvent_def split: if_splits)

lemma pushEvent_key_nonempty:
  "k \<in> fst ` set de \<Longrightarrow> \<exists>es. (k, es) \<in> set (pushEvent de k e) \<and> es \<noteq> []"
  unfolding pushEvent_def by force

lemma parseBullets_without:
  assumes d: "isDateKey d"
    and "cur \<noteq> [] \<longrightarrow> cur \<in> fst ` set de"
    and "cur \<noteq> d \<longrightarrow> cur' = cur"
    and "\<forall>es. (d, es) \<in> set (parseBullets cur de bs) \<longrightarrow> es = []"
  shows "parseBullets cur' (filter (\<lambda>g. fst g \<noteq> d) de) (filter (\<lambda>b. trim b \<noteq> d) bs)
         = filter (\<lambda>g. fst g \<noteq> d) (parseBullets cur de bs)"
  using assms(2-)
proof (induction bs arbitrary: cur cur' de)
  case Nil
  then show ?case by simp
next
  case (Cons b bs)
  have dne: "d \<noteq> []" using d by auto
  show ?case
  proof (cases "isDateKey (trim b)")
    case key: True
    define de1 where "de1 = (if trim b \<in> fst ` set de then de else de @ [(trim b, [])])"
    have step: "parseBullets cur de (b # bs) = parseBullets (trim b) de1 bs"
      using key by (simp add: Let_def de1_def)
    have inv1: "trim b \<noteq> [] \<longrightarrow> trim b \<in> fst ` set de1" by (auto simp: de1_def)
    have emp1: "\<forall>es. (d, es) \<in> set (parseBullets (trim b) de1 bs) \<longrightarrow> es = []"
      using Cons.prems(3) step by simp
    show ?thesis
    proof (cases "trim b = d")
      case True
      have f: "filter (\<lambda>g. fst g \<noteq> d) de1 = filter (\<lambda>g. fst g \<noteq> d) de"
        using True by (simp add: de1_def)
      have "trim b \<noteq> d \<longrightarrow> cur' = trim b" using True by simp
      from Cons.IH [OF inv1 this emp1] True f step show ?thesis by simp
    next
      case False
      have f: "filter (\<lambda>g. fst g \<noteq> d) de1
               = (if trim b \<in> fst ` set (filter (\<lambda>g. fst g \<noteq> d) de) then filter (\<lambda>g. fst g \<noteq> d) de
                  else filter (\<lambda>g. fst g \<noteq> d) de @ [(trim b, [])])"
        using False by (auto simp: de1_def image_iff)
      have "trim b \<noteq> d \<longrightarrow> trim b = trim b" by simp
      from Cons.IH [OF inv1 this emp1] False f step key show ?thesis by (simp add: Let_def)
    qed
  next
    case nokey: False
    then have keep: "trim b \<noteq> d" using d by auto
    show ?thesis
    proof (cases "startsWith (trim b) (str ''- '') \<and> cur \<noteq> []")
      case True
      have step: "parseBullets cur de (b # bs) = parseBullets cur (pushEvent de cur (trim b)) bs"
        using nokey True by (simp add: Let_def)
      have cd: "cur \<noteq> d"
      proof
        assume "cur = d"
        with True Cons.prems(1) have "d \<in> fst ` set de" by simp
        from pushEvent_key_nonempty [OF this, of "trim b"] obtain es where
          "(d, es) \<in> set (pushEvent de d (trim b))" "es \<noteq> []" by blast
        from nonempty_parseBullets [OF this, of d bs] Cons.prems(3) step \<open>cur = d\<close>
        show False by auto
      qed
      with Cons.prems(2) have c': "cur' = cur" by simp
      have inv1: "cur \<noteq> [] \<longrightarrow> cur \<in> fst ` set (pushEvent de cur (trim b))"
        using Cons.prems(1) by (metis list.set_map map_fst_pushEvent)
      have emp1: "\<forall>es. (d, es) \<in> set (parseBullets cur (pushEvent de cur (trim b)) bs) \<longrightarrow> es = []"
        using Cons.prems(3) step by simp
      from Cons.IH [OF inv1 Cons.prems(2) emp1] True nokey keep c' cd step
      show ?thesis by (simp add: Let_def filter_pushEvent)
    next
      case False
      have step: "parseBullets cur de (b # bs) = parseBullets cur de bs"
        using nokey False by (auto simp: Let_def)
      have emp1: "\<forall>es. (d, es) \<in> set (parseBullets cur de bs) \<longrightarrow> es = []"
        using Cons.prems(3) step by simp
      have skip': "\<not> (startsWith (trim b) (str ''- '') \<and> cur' \<noteq> [])"
      proof (cases "cur = d")
        case True
        with dne Cons.prems(1) False show ?thesis by auto
      next
        case False
        with Cons.prems(2) \<open>\<not> (startsWith (trim b) (str ''- '') \<and> cur \<noteq> [])\<close> show ?thesis by auto
      qed
      from Cons.IH [OF Cons.prems(1,2) emp1] skip' nokey keep step
      show ?thesis by (auto simp: Let_def)
    qed
  qed
qed

lemma foldl_skip_empty:
  assumes "\<And>r d. f r (d, []) = r"
  shows "foldl f r (filter (\<lambda>(d, es). es \<noteq> []) de) = foldl f r de"
  by (induction de arbitrary: r) (auto simp: assms)

lemma foldl_skip_key:
  assumes "\<And>r d. f r (d, []) = r" and "\<forall>es. (d, es) \<in> set de \<longrightarrow> es = []"
  shows "foldl f r (filter (\<lambda>g. fst g \<noteq> d) de) = foldl f r de"
  using assms(2) by (induction de arbitrary: r) (auto simp: assms(1))

lemma mergeSection_empty: "mergeSection r (d, []) = r"
  by (simp add: mergeSection_def)

lemma overwriteSection_empty: "overwriteSection today ds r (d, []) = r"
  by (simp add: overwriteSection_def)

lemma parseBullets_without_key:
  assumes "isDateKey d" and "\<forall>es. (d, es) \<in> set (parseBullets [] [] payload) \<longrightarrow> es = []"
  shows "parseBullets [] [] (filter (\<lambda>b. trim b \<noteq> d) payload)
         = filter (\<lambda>g. fst g \<noteq> d) (parseBullets [] [] payload)"
  using parseBullets_without [OF assms(1) _ _ assms(2), of "[]"] by simp

section \<open>Lines that a step keeps\<close>

lemma split_join_concat: "ls \<noteq> [] \<Longrightarrow> split (join ls) = concat (map split ls)"
proof (induction ls rule: join.induct)
  case 1
  then show ?case by simp
next
  case (2 l)
  then show ?case by simp
next
  case (3 l v va)
  then show ?case by (simp add: split_append_NL)
qed

lemma concat_split_lines: "\<forall>l\<in>set ls. NL \<notin> set l \<Longrightarrow> concat (map split ls) = ls"
  by (induction ls) (auto simp: split_noNL)

lemma split_Nil_iff: "split s = [[]] \<longleftrightarrow> s = []"
proof
  assume "split s = [[]]"
  then have "join (split s) = []" by simp
  then show "s = []" by simp
qed simp

section \<open>Overwrite with nothing selected, up to trimming\<close>

lemma hd_join: "l \<noteq> [] \<Longrightarrow> hd (join (l # ls)) = hd l"
  by (cases ls) auto

lemma join_nonempty: "ls \<noteq> [] \<Longrightarrow> last ls \<noteq> [] \<Longrightarrow> join ls \<noteq> []"
  by (induction ls rule: join.induct) auto

lemma last_join: "ls \<noteq> [] \<Longrightarrow> last ls \<noteq> [] \<Longrightarrow> last (join ls) = last (last ls)"
  by (induction ls rule: join.induct) (auto simp: join_nonempty)

lemma hd_split: "r \<noteq> [] \<Longrightarrow> hd r \<noteq> NL \<Longrightarrow> hd (split r) \<noteq> [] \<and> hd (hd (split r)) = hd r"
  by (cases r) (auto split: list.splits)

lemma last_split: "r \<noteq> [] \<Longrightarrow> last r \<noteq> NL \<Longrightarrow> last (split r) \<noteq> [] \<and> last (last (split r)) = last r"
proof (induction r rule: rev_induct)
  case Nil
  then show ?case by simp
next
  case (snoc c r)
  then have "c \<noteq> NL" by simp
  then show ?case by (simp add: split_snoc)
qed

lemma okBullets_last: "okBullets es \<Longrightarrow> e \<in> set es \<Longrightarrow> e \<noteq> [] \<and> \<not> isSpace (last e)"
proof -
  assume "okBullets es" "e \<in> set es"
  then have t: "trim e = e" and s: "startsWith e (str ''- '')" by (auto simp: okBullets_def)
  from s have "e \<noteq> []" by (auto simp: startsWith_def)
  with t show ?thesis by (simp add: trimmed_iff)
qed

lemma trimmed_mergeSection:
  assumes r: "trim r = r" and d: "isDateKey d" and es: "okBullets es"
  shows "trim (mergeSection r (d, es)) = mergeSection r (d, es)"
proof (cases "es = []")
  case True
  with r show ?thesis by (simp add: mergeSection_def)
next
  case False
  then have le: "last es \<in> set es" by simp
  from okBullets_last [OF es le] have lne: "last es \<noteq> []" and lsp: "\<not> isSpace (last (last es))" by auto
  have dne: "d \<noteq> []" using d by auto
  have dsp: "\<not> isSpace (hd d)"
    using isDateKey_chars [OF d] dne not_isSpace_key_char by (cases d) auto
  show ?thesis
  proof (cases "hasDateHeader r d")
    case no: False
    define tl where "tl = d @ [NL] @ join es"
    have tlne: "tl \<noteq> []" by (simp add: tl_def)
    have "last tl = last (join es)" using join_nonempty [OF False lne] by (simp add: tl_def)
    then have ltl: "\<not> isSpace (last tl)" using last_join [OF False lne] lsp by simp
    have htl: "\<not> isSpace (hd tl)" using dsp dne by (simp add: tl_def)
    show ?thesis
    proof (cases "r = []")
      case True
      then have "mergeSection r (d, es) = tl" using no False by (simp add: mergeSection_def tl_def)
      with tlne htl ltl show ?thesis by (simp add: trimmed_iff)
    next
      case rne: False
      then have m: "mergeSection r (d, es) = r @ [NL, NL] @ tl"
        using no False by (simp add: mergeSection_def tl_def)
      from r rne have "\<not> isSpace (hd r)" by (simp add: trimmed_iff)
      with rne tlne ltl show ?thesis unfolding m by (simp add: trimmed_iff)
    qed
  next
    case yes: True
    have rne: "r \<noteq> []"
    proof
      assume "r = []"
      with yes dne show False by (simp add: hasDateHeader_def)
    qed
    with r have rh: "\<not> isSpace (hd r)" and rl: "\<not> isSpace (last r)" by (simp_all add: trimmed_iff)
    then have "hd r \<noteq> NL" "last r \<noteq> NL" using isSpace_NL by auto
    from hd_split [OF rne this(1)] last_split [OF rne this(2)]
    have h: "hd (split r) \<noteq> []" "hd (hd (split r)) = hd r"
      and l: "last (split r) \<noteq> []" "last (last (split r)) = last r" by auto
    from yes have "\<not> (\<forall>x\<in>set (split r). trim x \<noteq> d)" by (auto simp: hasDateHeader_def list_ex_iff)
    then obtain i where i: "findIndex (\<lambda>line. trim line = d) (split r) = Some i"
      using findIndex_None [of "\<lambda>line. trim line = d" "split r"]
      by (cases "findIndex (\<lambda>line. trim line = d) (split r)") auto
    define k where "k = i + 1 + length (takeWhile (\<lambda>l. startsWith l (str ''- '') \<or> trim l = []) (drop (i + 1) (split r)))"
    define X where "X = take k (split r) @ es @ drop k (split r)"
    have m: "mergeSection r (d, es) = join X"
      using yes False i by (simp add: mergeSection_def Let_def k_def X_def)
    have k1: "k \<ge> 1" by (simp add: k_def)
    obtain l0 ls where sp: "split r = l0 # ls" by (cases "split r") auto
    with k1 have tk: "take k (split r) = l0 # take (k - 1) ls" by (cases k) auto
    have X0: "X = l0 # (take (k - 1) ls @ es @ drop k (split r))" by (simp add: X_def tk)
    have hX: "hd (join X) = hd r" using h sp unfolding X0 by (simp add: hd_join)
    have Xne: "X \<noteq> []" by (simp add: X0)
    have lastX: "last X \<noteq> [] \<and> \<not> isSpace (last (last X))"
    proof (cases "drop k (split r) = []")
      case True
      then have "last X = last es" using False by (simp add: X_def)
      with lne lsp show ?thesis by simp
    next
      case dn: False
      then have "last X = last (split r)" by (simp add: X_def)
      with l rl show ?thesis by simp
    qed
    then have "join X \<noteq> []" "last (join X) = last (last X)"
      using join_nonempty [OF Xne] last_join [OF Xne] by auto
    with hX rh lastX show ?thesis unfolding m by (simp add: trimmed_iff)
  qed
qed

lemma overwriteSection_nothing:
  "isDateKey d \<Longrightarrow> okBullets es \<Longrightarrow>
   overwriteSection today [] r (d, es) = (if es = [] then r else mergeSection (trim r) (d, es))"
  by (simp add: overwriteSection_def appendToJournal_group)

lemma foldl_overwrite_nothing_trimmed:
  assumes "\<forall>d\<in>set (map fst de). isDateKey d" and "\<forall>(d, es)\<in>set de. okBullets es" and "trim r = r"
  shows "foldl (overwriteSection today []) r de = foldl mergeSection r de"
  using assms
proof (induction de arbitrary: r)
  case Nil
  then show ?case by simp
next
  case (Cons g de)
  obtain d es where g: "g = (d, es)" by (cases g)
  with Cons.prems have d: "isDateKey d" and es: "okBullets es" by auto
  have s: "overwriteSection today [] r g = mergeSection r g"
    unfolding g using Cons.prems(3) by (simp add: overwriteSection_nothing [OF d es] mergeSection_def)
  have "trim (mergeSection r g) = mergeSection r g"
    unfolding g using Cons.prems(3) d es by (rule trimmed_mergeSection)
  with Cons s show ?case by simp
qed

lemma foldl_overwrite_nothing:
  assumes "\<forall>d\<in>set (map fst de). isDateKey d" and "\<forall>(d, es)\<in>set de. okBullets es"
  shows "foldl mergeSection (trim r) de = trim (foldl (overwriteSection today []) r de)"
    and "list_ex (\<lambda>(d, es). es \<noteq> []) de
         \<longrightarrow> foldl (overwriteSection today []) r de = foldl mergeSection (trim r) de"
  using assms
proof (induction de arbitrary: r)
  case Nil
  {
    case 1
    then show ?case by simp
  next
    case 2
    then show ?case by simp
  }
next
  case (Cons g de)
  obtain d es where g: "g = (d, es)" by (cases g)
  {
    case 1
    then have d: "isDateKey d" and es: "okBullets es" and
      rest: "\<forall>d\<in>set (map fst de). isDateKey d" "\<forall>(d, es)\<in>set de. okBullets es"
      using g by auto
    show ?case
    proof (cases "es = []")
      case True
      then show ?thesis using Cons.IH(1) [OF rest, of r] g
        by (simp add: overwriteSection_def mergeSection_def)
    next
      case False
      have t: "trim (mergeSection (trim r) (d, es)) = mergeSection (trim r) (d, es)"
        using d es by (intro trimmed_mergeSection) simp_all
      from Cons.IH(1) [OF rest, of "mergeSection (trim r) (d, es)"] t False g
      show ?thesis by (simp add: overwriteSection_nothing [OF d es])
    qed
  next
    case 2
    then have d: "isDateKey d" and es: "okBullets es" and
      rest: "\<forall>d\<in>set (map fst de). isDateKey d" "\<forall>(d, es)\<in>set de. okBullets es"
      using g by auto
    show ?case
    proof (cases "es = []")
      case True
      then show ?thesis using Cons.IH(2) [OF rest, of r] g
        by (simp add: overwriteSection_def mergeSection_def)
    next
      case False
      have t: "trim (mergeSection (trim r) (d, es)) = mergeSection (trim r) (d, es)"
        using d es by (intro trimmed_mergeSection) simp_all
      from foldl_overwrite_nothing_trimmed [OF rest t, of today] False g
      show ?thesis by (simp add: overwriteSection_nothing [OF d es])
    qed
  }
qed

lemma overwrite_nothing_against_append:
  assumes "hasMultipleDates newBullets"
  shows "appendToJournal today doc newBullets = trim (overwriteJournal today doc newBullets [])"
    and "list_ex (\<lambda>(d, es). es \<noteq> []) (parseBullets [] [] newBullets) \<or> trim doc = doc
         \<Longrightarrow> overwriteJournal today doc newBullets [] = appendToJournal today doc newBullets"
proof -
  from assms have ne: "newBullets \<noteq> []" by (auto simp: hasMultipleDates_def)
  have k: "\<forall>d\<in>set (map fst (parseBullets [] [] newBullets)). isDateKey d"
    by (rule keys_parseBullets) simp
  have b: "\<forall>(d, es)\<in>set (parseBullets [] [] newBullets). okBullets es"
    by (rule okBullets_parseBullets) simp
  show "appendToJournal today doc newBullets = trim (overwriteJournal today doc newBullets [])"
    using assms ne foldl_overwrite_nothing(1) [OF k b, where r = doc and today = today]
    by (simp add: appendToJournal_def overwriteJournal_def mergeMultiDateContent_def
        overwriteMultiDateContent_def)
  assume "list_ex (\<lambda>(d, es). es \<noteq> []) (parseBullets [] [] newBullets) \<or> trim doc = doc"
  then show "overwriteJournal today doc newBullets [] = appendToJournal today doc newBullets"
  proof
    assume "list_ex (\<lambda>(d, es). es \<noteq> []) (parseBullets [] [] newBullets)"
    with assms ne foldl_overwrite_nothing(2) [OF k b, where r = doc and today = today] show ?thesis
      by (simp add: appendToJournal_def overwriteJournal_def mergeMultiDateContent_def
          overwriteMultiDateContent_def)
  next
    assume "trim doc = doc"
    with assms ne foldl_overwrite_nothing_trimmed [OF k b, where today = today and r = doc] show ?thesis
      by (simp add: appendToJournal_def overwriteJournal_def mergeMultiDateContent_def
          overwriteMultiDateContent_def)
  qed
qed

section \<open>The shape of the normalizer's results\<close>

text \<open>
  Under a valid clock every result of \<open>normalizeDateFormat\<close> is a date key, except
  when the month-name pattern matched with a year group that begins with \<open>0\<close>.
\<close>

lemma showNat_lt10: "n < 10 \<Longrightarrow> showNat n = [48 + n]"
  by (subst showNat.simps) simp

lemma showNat_ge10: "10 \<le> n \<Longrightarrow> showNat n = showNat (n div 10) @ [48 + n mod 10]"
  by (subst showNat.simps) simp

lemma length_showNat_lt100: "n < 100 \<Longrightarrow> length (showNat n) = 1 \<or> length (showNat n) = 2"
  by (cases "n < 10") (simp_all add: showNat_lt10 showNat_ge10)

lemma length_showNat_4: "1000 \<le> n \<Longrightarrow> n < 10000 \<Longrightarrow> length (showNat n) = 4"
proof -
  assume a: "1000 \<le> n" "n < 10000"
  then have "10 \<le> n" "10 \<le> n div 10" "10 \<le> n div 10 div 10" "n div 10 div 10 div 10 < 10" by auto
  then show ?thesis by (simp add: showNat_ge10 showNat_lt10)
qed

lemma not_digit_dot: "\<not> isDigit 46"
  by (simp add: isDigit_def)

lemma digits12_build:
  assumes "\<forall>c\<in>set a. isDigit c" and "length a = 1 \<or> length a = 2"
  shows "digits12 (a @ 46 # rest) = Some (a, 46 # rest)"
proof -
  have "takeWhile isDigit (a @ 46 # rest) = a" "dropWhile isDigit (a @ 46 # rest) = 46 # rest"
    using assms(1) by (simp_all add: takeWhile_append2 dropWhile_append2 not_digit_dot)
  with assms(2) show ?thesis by (auto simp: digits12_def Let_def)
qed

lemma isDateKey_build:
  assumes "\<forall>c\<in>set a. isDigit c" "length a = 1 \<or> length a = 2"
    and "\<forall>c\<in>set b. isDigit c" "length b = 1 \<or> length b = 2"
    and "\<forall>c\<in>set y. isDigit c" "length y = 4"
  shows "isDateKey (a @ [46] @ b @ [46] @ y)"
  using digits12_build [OF assms(1,2), of "b @ 46 # y"] digits12_build [OF assms(3,4), of y] assms(5,6)
  by (simp add: isDateKey_def list_all_iff not_digit_dot)

lemma isDateKey_shown:
  assumes "m < 100" "d < 100" "\<forall>c\<in>set y. isDigit c" "length y = 4"
  shows "isDateKey (showNat m @ [46] @ showNat d @ [46] @ y)"
  using assms showNat_digits length_showNat_lt100 by (intro isDateKey_build) auto

lemma showInt_year: "1000 \<le> y \<Longrightarrow> y \<le> 9999 \<Longrightarrow> (\<forall>c\<in>set (showInt y). isDigit c) \<and> length (showInt y) = 4"
  using showNat_digits [of "nat y"] length_showNat_4 [of "nat y"] by (auto simp: showInt_def)

lemma isDateKey_fmtDate: "calendarDate 1000 d \<Longrightarrow> isDateKey (fmtDate d)"
  unfolding fmtDate_def calendarDate_def
  using showInt_year [of "getFullYear d"] by (intro isDateKey_shown) auto

lemma daysInMonth_bounds: "1 \<le> daysInMonth y m \<and> daysInMonth y m \<le> 31"
  by (simp add: daysInMonth_def)

lemma calendarDate_prevDay:
  assumes "calendarDate lo d"
  shows "calendarDate (lo - 1) (prevDay d)"
proof -
  from assms have m: "getMonth d < 12" and d: "1 \<le> getDate d" "getDate d \<le> 31"
    and y: "lo \<le> getFullYear d" "getFullYear d \<le> 9999"
    by (simp_all add: calendarDate_def)
  consider "getDate d > 1" | "\<not> getDate d > 1" "getMonth d > 0" | "\<not> getDate d > 1" "\<not> getMonth d > 0"
    by blast
  then show ?thesis
  proof cases
    case 1
    with m d y show ?thesis by (simp add: calendarDate_def prevDay_def Let_def) arith
  next
    case 2
    with m y daysInMonth_bounds [of "getFullYear d" "getMonth d - 1"] show ?thesis
      by (simp add: calendarDate_def prevDay_def Let_def)
  next
    case 3
    with y show ?thesis by (simp add: calendarDate_def prevDay_def Let_def)
  qed
qed

lemma calendarDate_daysBefore: "calendarDate lo d \<Longrightarrow> calendarDate (lo - int k) (daysBefore k d)"
proof (induction k arbitrary: lo d)
  case 0
  then show ?case by (simp add: daysBefore_0)
next
  case (Suc k)
  have "lo - 1 - int k = lo - int (Suc k)" by simp
  with Suc.IH [OF calendarDate_prevDay [OF Suc.prems]] show ?case
    by (simp only: daysBefore_Suc)
qed

lemma calendarDate_mono: "calendarDate lo d \<Longrightarrow> lo' \<le> lo \<Longrightarrow> calendarDate lo' d"
  by (auto simp: calendarDate_def)

lemma isDateKey_daysBefore:
  assumes "validClock today" "k \<le> 14"
  shows "isDateKey (fmtDate (daysBefore k today))"
proof -
  from assms(1) have "calendarDate 1970 today" by (auto simp: validClock_def calendarDate_def)
  from calendarDate_daysBefore [OF this, of k] have "calendarDate (1970 - int k) (daysBefore k today)" .
  moreover have "1000 \<le> 1970 - int k" using assms(2) by simp
  ultimately have "calendarDate 1000 (daysBefore k today)" by (rule calendarDate_mono)
  then show ?thesis by (rule isDateKey_fmtDate)
qed

lemma parseInt_lt100:
  assumes "\<forall>c\<in>set ds. isDigit c" "length ds \<le> 2"
  shows "parseInt ds < 100"
proof -
  from assms(2) consider "ds = []" | a where "ds = [a]" | a b where "ds = [a, b]"
    by (cases ds; cases "tl ds"; cases "tl (tl ds)") auto
  then show ?thesis using assms(1) by cases (auto simp: parseInt_def isDigit_def)
qed

lemma parseInt_4:
  assumes "\<forall>c\<in>set y. isDigit c" "length y = 4" "hd y \<noteq> 48"
  shows "1000 \<le> parseInt y \<and> parseInt y < 10000"
proof -
  from assms(2) obtain a b c d where y: "y = [a, b, c, d]"
    by (cases y; cases "tl y"; cases "tl (tl y)"; cases "tl (tl (tl y))") auto
  with assms(1,3) show ?thesis by (auto simp: parseInt_def isDigit_def)
qed

lemma digits12_Some:
  "digits12 s = Some (a, r) \<Longrightarrow> (\<forall>c\<in>set a. isDigit c) \<and> length a \<le> 2"
  by (auto simp: digits12_def Let_def split: if_splits dest: set_takeWhileD)

lemma fullDateMatch_Some:
  assumes "fullDateMatch s = Some (m, d, y)"
  shows "(\<forall>c\<in>set m. isDigit c) \<and> length m \<le> 2 \<and> (\<forall>c\<in>set d. isDigit c) \<and> length d \<le> 2
         \<and> (\<forall>c\<in>set y. isDigit c) \<and> length y = 4"
  using assms digits12_Some
  by (fastforce simp: fullDateMatch_def list_all_iff split: option.splits list.splits if_splits)

lemma shortDateMatch_Some:
  assumes "shortDateMatch s = Some (m, d)"
  shows "(\<forall>c\<in>set m. isDigit c) \<and> length m \<le> 2 \<and> (\<forall>c\<in>set d. isDigit c) \<and> length d \<le> 2"
  using assms digits12_Some
  by (fastforce simp: shortDateMatch_def split: option.splits list.splits if_splits)

lemma yearGroup_Some: "yearGroup s = Some y \<Longrightarrow> (\<forall>c\<in>set y. isDigit c) \<and> length y = 4"
proof -
  assume "yearGroup s = Some y"
  then obtain r where r: "y = take 4 r" "length (takeWhile isDigit (take 4 r)) = 4"
    by (auto simp: yearGroup_def split: option.splits if_splits)
  have "length (takeWhile isDigit (take 4 r)) \<le> length (take 4 r)" by (rule length_takeWhile_le)
  with r(2) have l: "length (take 4 r) = 4" by simp
  with r(2) have "takeWhile isDigit (take 4 r) = take 4 r"
    by (metis takeWhile_eq_take take_all order_refl)
  then have "\<forall>c\<in>set (take 4 r). isDigit c" by (metis set_takeWhileD)
  with l r(1) show ?thesis by simp
qed

lemma monthPatternAt_Some:
  assumes "monthPatternAt s = Some (g1, g2, g3)"
  shows "(\<forall>c\<in>set g2. isDigit c) \<and> length g2 \<le> 2
         \<and> (\<forall>y. g3 = Some y \<longrightarrow> (\<forall>c\<in>set y. isDigit c) \<and> length y = 4)"
proof -
  from assms obtain r where g2: "g2 = takeWhile isDigit (take 2 r)"
    and g3: "g3 = yearGroup (ordinalSuffix (drop (length g2) r))"
    by (auto simp: monthPatternAt_def Let_def split: if_splits option.splits)
  have "length g2 \<le> length (take 2 r)" unfolding g2 by (rule length_takeWhile_le)
  then have "length g2 \<le> 2" by simp
  moreover have "\<forall>c\<in>set g2. isDigit c" unfolding g2 by (auto dest: set_takeWhileD)
  ultimately show ?thesis using g3 yearGroup_Some by auto
qed

lemma monthMatch_Some:
  "monthMatch s = Some (g1, g2, g3) \<Longrightarrow>
   (\<forall>c\<in>set g2. isDigit c) \<and> length g2 \<le> 2
   \<and> (\<forall>y. g3 = Some y \<longrightarrow> (\<forall>c\<in>set y. isDigit c) \<and> length y = 4)"
proof (induction s)
  case Nil
  then show ?case by simp
next
  case (Cons c s)
  show ?case
  proof (cases "monthPatternAt (c # s)")
    case None
    with Cons show ?thesis by simp
  next
    case (Some g)
    with Cons.prems have "monthPatternAt (c # s) = Some (g1, g2, g3)" by simp
    then show ?thesis by (rule monthPatternAt_Some)
  qed
qed

lemma normalizeDateFormat_shape:
  assumes clock: "validClock today" and res: "normalizeDateFormat today s = Some k"
  shows "isDateKey k \<or> (\<exists>g1 g2 y. monthMatch (toLowerCase s) = Some (g1, g2, Some y) \<and> hd y = 48)"
proof -
  have yr: "(\<forall>c\<in>set (showInt (getFullYear today)). isDigit c) \<and> length (showInt (getFullYear today)) = 4"
    using clock by (intro showInt_year) (auto simp: validClock_def)
  have ne: "s \<noteq> []" using res by (auto simp: normalizeDateFormat_def)
  show ?thesis
  proof (cases "isDateKey s")
    case True
    with res ne show ?thesis by (simp add: normalizeDateFormat_def Let_def)
  next
    case nk: False
    show ?thesis
    proof (cases "fullDateMatch s")
      case (Some t)
      obtain m d y where t: "t = (m, d, y)" by (cases t)
      from fullDateMatch_Some [OF Some [unfolded t]]
      have "isDateKey (showNat (parseInt m) @ [46] @ showNat (parseInt d) @ [46] @ y)"
        by (intro isDateKey_shown parseInt_lt100) auto
      with res ne nk Some t show ?thesis by (simp add: normalizeDateFormat_def Let_def)
    next
      case nf: None
      show ?thesis
      proof (cases "shortDateMatch s")
        case (Some t)
        obtain m d where t: "t = (m, d)" by (cases t)
        from shortDateMatch_Some [OF Some [unfolded t]] yr
        have "isDateKey (showNat (parseInt m) @ [46] @ showNat (parseInt d) @ [46] @ showInt (getFullYear today))"
          by (intro isDateKey_shown parseInt_lt100) auto
        with res ne nk nf Some t show ?thesis by (simp add: normalizeDateFormat_def Let_def)
      next
        case ns: None
        show ?thesis
        proof (cases "includesStr (toLowerCase s) (str ''today'')")
          case True
          have "isDateKey (fmtDate (daysBefore 0 today))" using clock by (rule isDateKey_daysBefore) simp
          with res ne nk nf ns True show ?thesis
            by (simp add: normalizeDateFormat_def Let_def formatDateHeader_def daysBefore_0)
        next
          case nt: False
          show ?thesis
          proof (cases "includesStr (toLowerCase s) (str ''yesterday'')")
            case True
            have "isDateKey (fmtDate (daysBefore 1 today))" using clock by (rule isDateKey_daysBefore) simp
            with res ne nk nf ns nt True show ?thesis by (simp add: normalizeDateFormat_def Let_def)
          next
            case ny: False
            define byDay where "byDay =
              (case dayMatch (toLowerCase s) of
                 None \<Rightarrow> None
               | Some g \<Rightarrow>
                   (case findIndex (\<lambda>day. startsWith day (toLowerCase g)) dayNames of
                      None \<Rightarrow> None
                    | Some dayIndex \<Rightarrow>
                        (let currentDay = getDay today;
                             daysBack = int currentDay - int dayIndex;
                             daysBack = (if daysBack \<le> 0 then daysBack + 7 else daysBack);
                             daysBack = (if includesStr (toLowerCase s) (str ''last'') then daysBack + 7
                                         else daysBack)
                         in Some (fmtDate (daysBefore (nat daysBack) today)))))"
            define byMonth where "byMonth =
              (case monthMatch (toLowerCase s) of
                 None \<Rightarrow> None
               | Some (g1, g2, g3) \<Rightarrow>
                   (case findIndex (\<lambda>month. startsWith month (toLowerCase g1)) monthNames of
                      None \<Rightarrow> None
                    | Some monthIndex \<Rightarrow>
                        (let day = parseInt g2;
                             year = (case g3 of
                                       Some y \<Rightarrow> showNat (parseInt y)
                                     | None \<Rightarrow> showInt (getFullYear today))
                         in Some (showNat (monthIndex + 1) @ [46] @ showNat day @ [46] @ year))))"
            have n: "normalizeDateFormat today s = (case byDay of Some r \<Rightarrow> Some r | None \<Rightarrow> byMonth)"
              unfolding byDay_def byMonth_def normalizeDateFormat_def Let_def
              using ne nk nf ns nt ny by simp
            show ?thesis
            proof (cases byDay)
              case (Some r)
              with n res have rk: "r = k" by simp
              from Some obtain g i where i: "findIndex (\<lambda>day. startsWith day (toLowerCase g)) dayNames = Some i"
                and r: "r = fmtDate (daysBefore (nat ((if int (getDay today) - int i \<le> 0
                                then int (getDay today) - int i + 7 else int (getDay today) - int i)
                              + (if includesStr (toLowerCase s) (str ''last'') then 7 else 0))) today)"
                by (auto simp: byDay_def Let_def split: option.splits if_splits)
              from findIndex_Some [OF i] have "i < 7" by (simp add: dayNames_def)
              moreover have "getDay today < 7" using clock by (simp add: validClock_def)
              ultimately have "nat ((if int (getDay today) - int i \<le> 0
                                then int (getDay today) - int i + 7 else int (getDay today) - int i)
                              + (if includesStr (toLowerCase s) (str ''last'') then 7 else 0)) \<le> 14"
                by auto
              from isDateKey_daysBefore [OF clock this] r rk show ?thesis by simp
            next
              case None
              with n res have bm: "byMonth = Some k" by simp
              then obtain g1 g2 g3 i where mm: "monthMatch (toLowerCase s) = Some (g1, g2, g3)"
                and i: "findIndex (\<lambda>month. startsWith month (toLowerCase g1)) monthNames = Some i"
                and k: "k = showNat (i + 1) @ [46] @ showNat (parseInt g2) @ [46]
                          @ (case g3 of Some y \<Rightarrow> showNat (parseInt y) | None \<Rightarrow> showInt (getFullYear today))"
                by (auto simp: byMonth_def Let_def split: option.splits)
              from findIndex_Some [OF i] have i12: "i + 1 < 100" by (simp add: monthNames_def)
              from monthMatch_Some [OF mm] have g2: "\<forall>c\<in>set g2. isDigit c" "length g2 \<le> 2"
                and g3: "\<forall>y. g3 = Some y \<longrightarrow> (\<forall>c\<in>set y. isDigit c) \<and> length y = 4" by auto
              have d100: "parseInt g2 < 100" using g2 by (rule parseInt_lt100)
              show ?thesis
              proof (cases g3)
                case None
                have "isDateKey (showNat (i + 1) @ [46] @ showNat (parseInt g2) @ [46] @ showInt (getFullYear today))"
                  using i12 d100 yr by (intro isDateKey_shown) auto
                with k None show ?thesis by simp
              next
                case (Some y)
                show ?thesis
                proof (cases "hd y = 48")
                  case True
                  with mm Some show ?thesis by auto
                next
                  case False
                  from g3 Some have y: "\<forall>c\<in>set y. isDigit c" "length y = 4" by auto
                  from parseInt_4 [OF y False] have "length (showNat (parseInt y)) = 4"
                    by (intro length_showNat_4) auto
                  with i12 d100 showNat_digits [of "parseInt y"]
                  have "isDateKey (showNat (i + 1) @ [46] @ showNat (parseInt g2) @ [46] @ showNat (parseInt y))"
                    by (intro isDateKey_shown) auto
                  with k Some show ?thesis by simp
                qed
              qed
            qed
          qed
        qed
      qed
    qed
  qed
qed

section \<open>The groups of a payload\<close>

lemma keysInOrder_keys: "k \<in> set (keysInOrder bs) \<Longrightarrow> isDateKey k"
  by (induction bs) (auto split: if_splits)

lemma keysInOrder_distinct: "distinct (keysInOrder bs)"
  by (induction bs) auto

lemma entriesUnder_other: "cur \<noteq> d \<Longrightarrow> \<not> isDateKey (trim b) \<Longrightarrow> entriesUnder d cur (b # bs) = entriesUnder d cur bs"
  by simp

lemma map_pushEvent:
  "map (\<lambda>(k, es). (k, es @ X k)) (pushEvent de cur t)
   = map (\<lambda>(k, es). (k, es @ (if k = cur then t # X k else X k))) de"
  by (induction de) (auto simp: pushEvent_def)

lemma parseBullets_groups:
  assumes "\<forall>k\<in>fst ` set de. k \<noteq> []" and "cur = [] \<or> cur \<in> fst ` set de"
  shows "parseBullets cur de bs =
         map (\<lambda>(k, es). (k, es @ entriesUnder k cur bs)) de
         @ map (\<lambda>k. (k, entriesUnder k cur bs)) (filter (\<lambda>k. k \<notin> fst ` set de) (keysInOrder bs))"
  using assms
proof (induction bs arbitrary: cur de)
  case Nil
  then show ?case by (simp add: case_prod_unfold)
next
  case (Cons b bs)
  define t where "t = trim b"
  note del = entriesUnder.simps parseBullets.simps keysInOrder.simps
  show ?case
  proof (cases "isDateKey t")
    case True
    then have tne: "t \<noteq> []" by auto
    have eu: "entriesUnder k cur (b # bs) = entriesUnder k t bs" for k
      using True by (simp add: t_def)
    have kk: "keysInOrder (b # bs) = t # filter (\<lambda>k. k \<noteq> t) (keysInOrder bs)"
      using True by (simp add: t_def)
    show ?thesis
    proof (cases "t \<in> fst ` set de")
      case inn: True
      have pb: "parseBullets cur de (b # bs) = parseBullets t de bs"
        using True inn by (simp add: t_def Let_def)
      have f: "filter (\<lambda>x. x \<noteq> t \<and> x \<notin> fst ` set de) (keysInOrder bs)
               = filter (\<lambda>k. k \<notin> fst ` set de) (keysInOrder bs)"
        using inn by (auto intro!: filter_cong)
      from Cons.IH [of de t] Cons.prems(1) inn
      have ih: "parseBullets t de bs =
         map (\<lambda>(k, es). (k, es @ entriesUnder k t bs)) de
         @ map (\<lambda>k. (k, entriesUnder k t bs)) (filter (\<lambda>k. k \<notin> fst ` set de) (keysInOrder bs))"
        by simp
      show ?thesis using inn by (simp add: pb eu kk ih f del: del)
    next
      case out: False
      have pb: "parseBullets cur de (b # bs) = parseBullets t (de @ [(t, [])]) bs"
        using True out by (simp add: t_def Let_def)
      have f: "filter (\<lambda>k. k \<notin> fst ` set (de @ [(t, [])])) (keysInOrder bs)
               = filter (\<lambda>x. x \<noteq> t \<and> x \<notin> fst ` set de) (keysInOrder bs)"
        by (auto intro!: filter_cong)
      from Cons.IH [of "de @ [(t, [])]" t] Cons.prems(1) tne
      have "parseBullets t (de @ [(t, [])]) bs =
         map (\<lambda>(k, es). (k, es @ entriesUnder k t bs)) (de @ [(t, [])])
         @ map (\<lambda>k. (k, entriesUnder k t bs)) (filter (\<lambda>k. k \<notin> fst ` set (de @ [(t, [])])) (keysInOrder bs))"
        by simp
      then have ih: "parseBullets t (de @ [(t, [])]) bs =
         map (\<lambda>(k, es). (k, es @ entriesUnder k t bs)) (de @ [(t, [])])
         @ map (\<lambda>k. (k, entriesUnder k t bs)) (filter (\<lambda>x. x \<noteq> t \<and> x \<notin> fst ` set de) (keysInOrder bs))"
        by (simp only: f)
      show ?thesis using out by (simp add: pb eu kk ih del: del)
    qed
  next
    case nokey: False
    have kk: "keysInOrder (b # bs) = keysInOrder bs"
      using nokey by (simp add: t_def)
    show ?thesis
    proof (cases "startsWith t (str ''- '') \<and> cur \<noteq> []")
      case True
      with Cons.prems(2) have cur: "cur \<in> fst ` set de" by simp
      have pb: "parseBullets cur de (b # bs) = parseBullets cur (pushEvent de cur t) bs"
        using True nokey by (simp add: t_def Let_def)
      have eu: "entriesUnder k cur (b # bs) = (if k = cur then t # entriesUnder k cur bs else entriesUnder k cur bs)" for k
        using True nokey by (auto simp: t_def)
      have keys: "fst ` set (pushEvent de cur t) = fst ` set de"
        using map_fst_pushEvent [of de cur t] by (metis set_map)
      have new: "map (\<lambda>k. (k, entriesUnder k cur (b # bs))) (filter (\<lambda>k. k \<notin> fst ` set de) (keysInOrder bs))
               = map (\<lambda>k. (k, entriesUnder k cur bs)) (filter (\<lambda>k. k \<notin> fst ` set de) (keysInOrder bs))"
      proof (intro map_cong refl)
        fix k assume "k \<in> set (filter (\<lambda>k. k \<notin> fst ` set de) (keysInOrder bs))"
        with cur have "k \<noteq> cur" by auto
        then show "(k, entriesUnder k cur (b # bs)) = (k, entriesUnder k cur bs)" by (simp only: eu if_False)
      qed
      have old: "map (\<lambda>(k, es). (k, es @ entriesUnder k cur bs)) (pushEvent de cur t)
               = map (\<lambda>(k, es). (k, es @ entriesUnder k cur (b # bs))) de"
        unfolding map_pushEvent by (simp only: eu)
      from Cons.IH [of "pushEvent de cur t" cur] Cons.prems keys cur
      have ih: "parseBullets cur (pushEvent de cur t) bs =
         map (\<lambda>(k, es). (k, es @ entriesUnder k cur bs)) (pushEvent de cur t)
         @ map (\<lambda>k. (k, entriesUnder k cur bs)) (filter (\<lambda>k. k \<notin> fst ` set de) (keysInOrder bs))"
        by simp
      show ?thesis by (simp only: pb ih old new kk)
    next
      case False
      have pb: "parseBullets cur de (b # bs) = parseBullets cur de bs"
        using False nokey by (auto simp: t_def Let_def)
      have e: "entriesUnder k cur (b # bs) = entriesUnder k cur bs" if "k \<noteq> []" for k
        using False nokey that by (auto simp: t_def)
      have new: "map (\<lambda>k. (k, entriesUnder k cur (b # bs))) (filter (\<lambda>k. k \<notin> fst ` set de) (keysInOrder bs))
               = map (\<lambda>k. (k, entriesUnder k cur bs)) (filter (\<lambda>k. k \<notin> fst ` set de) (keysInOrder bs))"
      proof (intro map_cong refl)
        fix k assume "k \<in> set (filter (\<lambda>k. k \<notin> fst ` set de) (keysInOrder bs))"
        then have "isDateKey k" using keysInOrder_keys [of k bs] by simp
        then have "k \<noteq> []" by auto
        then have "entriesUnder k cur (b # bs) = entriesUnder k cur bs" by (rule e)
        then show "(k, entriesUnder k cur (b # bs)) = (k, entriesUnder k cur bs)" by (simp only:)
      qed
      have old: "map (\<lambda>(k, es). (k, es @ entriesUnder k cur (b # bs))) de
               = map (\<lambda>(k, es). (k, es @ entriesUnder k cur bs)) de"
      proof (intro map_cong refl)
        fix g assume g: "g \<in> set de"
        obtain k es where ke: "g = (k, es)" by (cases g)
        with g Cons.prems(1) have "k \<noteq> []" by force
        then have "entriesUnder k cur (b # bs) = entriesUnder k cur bs" by (rule e)
        then show "(case g of (k, es) \<Rightarrow> (k, es @ entriesUnder k cur (b # bs)))
                 = (case g of (k, es) \<Rightarrow> (k, es @ entriesUnder k cur bs))"
          unfolding ke by (simp only: prod.case)
      qed
      from Cons.IH [of de cur] Cons.prems
      have ih: "parseBullets cur de bs =
         map (\<lambda>(k, es). (k, es @ entriesUnder k cur bs)) de
         @ map (\<lambda>k. (k, entriesUnder k cur bs)) (filter (\<lambda>k. k \<notin> fst ` set de) (keysInOrder bs))"
        by simp
      show ?thesis by (simp only: pb ih old new kk)
    qed
  qed
qed

lemma parseBullets_groupsOf: "parseBullets [] [] payload = groupsOf payload"
  using parseBullets_groups [of "[]" "[]" payload] by (simp add: groupsOf_def)

lemma groupDates_groupsOf:
  "map fst (filter (\<lambda>(d, es). es \<noteq> []) (groupsOf payload)) = groupDates payload"
  by (simp add: groupsOf_def groupDates_def filter_map comp_def)

lemma okGroups_groupsOf:
  "list_all (\<lambda>e. headers e = []) (concat (map snd (groupsOf payload))) \<Longrightarrow> okGroups (groupsOf payload)"
  using keysInOrder_keys keysInOrder_distinct [of payload]
  by (auto simp: okGroups_def okEvents_def groupsOf_def list_all_iff comp_def)

section \<open>Header lines of what an operation writes\<close>

lemma headers_join: "ls \<noteq> [] \<Longrightarrow> headers (join ls) = concat (map headers ls)"
  by (simp add: headers_def [abs_def] split_join_concat map_concat filter_concat comp_def)

lemma headers_line: "NL \<notin> set l \<Longrightarrow> headers l = (if isDateKey (trim l) then [trim l] else [])"
  by (simp add: headers_def split_noNL)

lemma headers_key: "isDateKey d \<Longrightarrow> headers d = [d]"
  by (simp add: headers_line isDateKey_noNL isDateKey_trim)

lemma headers_split: "concat (map headers (split r)) = headers r"
  using headers_join [of "split r"] by simp

lemma headers_split_line: "l \<in> set (split r) \<Longrightarrow> headers l = (if isDateKey (trim l) then [trim l] else [])"
  by (rule headers_line) (rule split_lines_noNL)

lemma okEvents_concat: "okEvents es \<Longrightarrow> concat (map headers es) = []"
  by (simp add: okEvents_def)

lemma headers_mergeSection:
  assumes d: "isDateKey d" and es: "okEvents es"
  shows "headers (mergeSection r (d, es)) = headers r @ (if es \<noteq> [] \<and> d \<notin> set (headers r) then [d] else [])"
proof (cases "es = []")
  case True
  then show ?thesis by (simp add: mergeSection_def)
next
  case False
  note hes = okEvents_concat [OF es]
  show ?thesis
  proof (cases "hasDateHeader r d")
    case no: False
    then have notin: "d \<notin> set (headers r)" using d by (simp add: hasDateHeader_headers)
    show ?thesis
    proof (cases "r = []")
      case True
      then have "mergeSection r (d, es) = join (d # es)"
        using no False by (simp add: mergeSection_def join_Cons)
      moreover have "headers (join (d # es)) = concat (map headers (d # es))"
        by (rule headers_join) simp
      ultimately show ?thesis using True notin d False by (simp add: hes headers_key del: join.simps)
    next
      case rne: False
      then have "mergeSection r (d, es) = join (r # [] # d # es)"
        using no False by (simp add: mergeSection_def join_Cons)
      moreover have "headers (join (r # [] # d # es)) = concat (map headers (r # [] # d # es))"
        by (rule headers_join) simp
      ultimately show ?thesis using notin d False by (simp add: hes headers_key del: join.simps)
    qed
  next
    case yes: True
    then have inh: "d \<in> set (headers r)" using d by (simp add: hasDateHeader_headers)
    from yes have "\<not> (\<forall>x\<in>set (split r). trim x \<noteq> d)" by (auto simp: hasDateHeader_def list_ex_iff)
    then obtain i where i: "findIndex (\<lambda>line. trim line = d) (split r) = Some i"
      using findIndex_None [of "\<lambda>line. trim line = d" "split r"] by (cases "findIndex (\<lambda>line. trim line = d) (split r)") auto
    define k where "k = i + 1 + length (takeWhile (\<lambda>l. startsWith l (str ''- '') \<or> trim l = []) (drop (i + 1) (split r)))"
    have m: "mergeSection r (d, es) = join (take k (split r) @ es @ drop k (split r))"
      using yes False i by (simp add: mergeSection_def Let_def k_def)
    have ne: "take k (split r) @ es @ drop k (split r) \<noteq> []" using False by simp
    have "headers (mergeSection r (d, es))
          = concat (map headers (take k (split r))) @ concat (map headers (drop k (split r)))"
      unfolding m headers_join [OF ne] by (simp add: hes)
    also have "\<dots> = concat (map headers (take k (split r) @ drop k (split r)))"
      by (simp only: map_append concat_append)
    also have "\<dots> = headers r" by (simp only: append_take_drop_id headers_split)
    finally show ?thesis using inh by simp
  qed
qed

lemma headers_foldl_mergeSection:
  "okGroups de \<Longrightarrow>
   headers (foldl mergeSection r de) =
   headers r @ filter (\<lambda>d. d \<notin> set (headers r)) (map fst (filter (\<lambda>(d, es). es \<noteq> []) de))"
proof (induction de arbitrary: r)
  case Nil
  then show ?case by simp
next
  case (Cons g de)
  obtain d es where g: "g = (d, es)" by (cases g)
  from Cons.prems g have d: "isDateKey d" and es: "okEvents es" and ok: "okGroups de"
    and fresh: "d \<notin> fst ` set de"
    by (auto simp: okGroups_def)
  define X where "X = (if es \<noteq> [] \<and> d \<notin> set (headers r) then [d] else [])"
  have h1: "headers (mergeSection r (d, es)) = headers r @ X"
    unfolding X_def using d es by (rule headers_mergeSection)
  have same: "filter (\<lambda>k. k \<notin> set (headers r @ X)) (map fst (filter (\<lambda>(d, es). es \<noteq> []) de))
            = filter (\<lambda>k. k \<notin> set (headers r)) (map fst (filter (\<lambda>(d, es). es \<noteq> []) de))"
    using fresh by (intro filter_cong) (auto simp: X_def)
  have "headers (foldl mergeSection r (g # de)) =
        (headers r @ X) @ filter (\<lambda>k. k \<notin> set (headers r)) (map fst (filter (\<lambda>(d, es). es \<noteq> []) de))"
    using Cons.IH [OF ok, of "mergeSection r (d, es)"] h1 same g by simp
  also have "\<dots> = headers r @ filter (\<lambda>k. k \<notin> set (headers r)) (map fst (filter (\<lambda>(d, es). es \<noteq> []) (g # de)))"
    by (auto simp: g X_def)
  finally show ?case .
qed

lemma headers_mergeMultiDateContent:
  assumes "okGroups (groupsOf payload)"
  shows "headers (mergeMultiDateContent doc payload) =
         headers doc @ filter (\<lambda>d. d \<notin> set (headers doc)) (groupDates payload)"
  unfolding mergeMultiDateContent_def parseBullets_groupsOf
  using headers_foldl_mergeSection [OF assms, of "trim doc"] by (simp add: groupDates_groupsOf)

lemma headers_overwriteSingleDate_existing:
  assumes "hasDateHeader r d" and "okEvents es"
  shows "headers (overwriteSingleDate today r es d) = headers r"
proof -
  from section_decomposition [OF assms(1)] obtain pre h body rest where
    sp: "split r = pre @ h # body @ rest" and h: "trim h = d"
    and pre: "list_all (\<lambda>l. trim l \<noteq> d) pre"
    and body: "list_all (\<lambda>l. \<not> isDateKey (trim l)) body"
    and rest: "rest = [] \<or> isDateKey (trim (hd rest))" by blast
  have out: "overwriteSingleDate today r es d = join (pre @ h # es @ rest)"
    using sp h pre body rest by (intro overwriteSingleDate_existing) (auto simp: list_all_iff)
  have "\<forall>l\<in>set body. headers l = []"
  proof
    fix l assume l: "l \<in> set body"
    then have "l \<in> set (split r)" by (simp add: sp)
    from headers_split_line [OF this] l body show "headers l = []" by (simp add: list_all_iff)
  qed
  then have b0: "concat (map headers body) = []" by simp
  have "headers (overwriteSingleDate today r es d) = concat (map headers (pre @ h # es @ rest))"
    unfolding out by (rule headers_join) simp
  also have "\<dots> = concat (map headers (pre @ h # body @ rest))"
    by (simp add: okEvents_concat [OF assms(2)] b0)
  also have "\<dots> = headers r" by (simp only: sp [symmetric] headers_split)
  finally show ?thesis .
qed

lemma headers_overwriteSection:
  assumes d: "isDateKey d" and es: "okEvents es" and bs: "okBullets es"
  shows "headers (overwriteSection today ds r (d, es))
         = headers r @ (if es \<noteq> [] \<and> d \<notin> set (headers r) then [d] else [])"
proof (cases "es = []")
  case True
  then show ?thesis by (simp add: overwriteSection_def)
next
  case False
  have app: "headers (appendToJournal today r (d # es))
         = headers r @ (if es \<noteq> [] \<and> d \<notin> set (headers r) then [d] else [])"
    using headers_mergeSection [OF d es, of "trim r"] by (simp add: appendToJournal_group [OF d bs])
  show ?thesis
  proof (cases "d \<in> set ds \<and> hasDateHeader r d")
    case True
    then have "d \<in> set (headers r)" using d by (simp add: hasDateHeader_headers)
    with True False show ?thesis
      by (simp add: overwriteSection_def headers_overwriteSingleDate_existing [OF _ es])
  next
    case no: False
    show ?thesis
    proof (cases "d \<in> set ds")
      case True
      with no have "\<not> hasDateHeader r d" by simp
      from overwriteSingleDate_missing(1) [OF d bs False this, of today] True False app
      show ?thesis by (simp add: overwriteSection_def)
    next
      case False
      with \<open>es \<noteq> []\<close> app show ?thesis by (simp add: overwriteSection_def)
    qed
  qed
qed

lemma headers_foldl_overwriteSection:
  "okGroups de \<Longrightarrow> \<forall>(d, es)\<in>set de. okBullets es \<Longrightarrow>
   headers (foldl (overwriteSection today ds) r de) =
   headers r @ filter (\<lambda>d. d \<notin> set (headers r)) (map fst (filter (\<lambda>(d, es). es \<noteq> []) de))"
proof (induction de arbitrary: r)
  case Nil
  then show ?case by simp
next
  case (Cons g de)
  obtain d es where g: "g = (d, es)" by (cases g)
  from Cons.prems g have d: "isDateKey d" and es: "okEvents es" and bs: "okBullets es"
    and ok: "okGroups de" and ok2: "\<forall>(d, es)\<in>set de. okBullets es"
    and fresh: "d \<notin> fst ` set de"
    by (auto simp: okGroups_def)
  define X where "X = (if es \<noteq> [] \<and> d \<notin> set (headers r) then [d] else [])"
  have h1: "headers (overwriteSection today ds r (d, es)) = headers r @ X"
    unfolding X_def using d es bs by (rule headers_overwriteSection)
  have same: "filter (\<lambda>k. k \<notin> set (headers r @ X)) (map fst (filter (\<lambda>(d, es). es \<noteq> []) de))
            = filter (\<lambda>k. k \<notin> set (headers r)) (map fst (filter (\<lambda>(d, es). es \<noteq> []) de))"
    using fresh by (intro filter_cong) (auto simp: X_def)
  have "headers (foldl (overwriteSection today ds) r (g # de)) =
        (headers r @ X) @ filter (\<lambda>k. k \<notin> set (headers r)) (map fst (filter (\<lambda>(d, es). es \<noteq> []) de))"
    using Cons.IH [OF ok ok2, of "overwriteSection today ds r (d, es)"] h1 same g by simp
  also have "\<dots> = headers r @ filter (\<lambda>k. k \<notin> set (headers r)) (map fst (filter (\<lambda>(d, es). es \<noteq> []) (g # de)))"
    by (auto simp: g X_def)
  finally show ?case .
qed

lemma okBullets_groupsOf: "\<forall>(d, es)\<in>set (groupsOf payload). okBullets es"
  unfolding parseBullets_groupsOf [symmetric] by (rule okBullets_parseBullets) simp

lemma headers_overwriteMultiDateContent:
  assumes "okGroups (groupsOf payload)"
  shows "headers (overwriteMultiDateContent today doc payload ds) =
         headers doc @ filter (\<lambda>d. d \<notin> set (headers doc)) (groupDates payload)"
  unfolding overwriteMultiDateContent_def parseBullets_groupsOf
  using headers_foldl_overwriteSection [OF assms okBullets_groupsOf, of today ds doc]
  by (simp add: groupDates_groupsOf)

lemma headers_appendToJournal_single:
  assumes ne: "bs \<noteq> []" and single: "\<not> hasMultipleDates bs" and nh: "okEvents bs"
  shows "headers (appendToJournal today doc bs) =
         headers doc @ (if \<not> hasDateHeader doc (formatDateHeader today) \<and> isDateKey (formatDateHeader today)
                        then [formatDateHeader today] else [])"
proof -
  define H where "H = formatDateHeader today"
  have Hp: "NL \<notin> set H" "trim H = H" "H \<noteq> []" unfolding H_def by (rule formatDateHeader_props)+
  have hH: "headers H = (if isDateKey H then [H] else [])" using headers_line [OF Hp(1)] Hp(2) by simp
  note hbs = okEvents_concat [OF nh]
  have jb: "join bs = join bs" ..
  show ?thesis
  proof (cases "hasDateHeader doc H")
    case False
    show ?thesis
    proof (cases "trim doc = []")
      case True
      then have "appendToJournal today doc bs = join (H # bs)"
        using ne single False by (simp add: appendToJournal_def Let_def H_def join_Cons)
      moreover have "headers doc = []" using headers_trim [of doc] True by simp
      moreover have "headers (join (H # bs)) = concat (map headers (H # bs))"
        by (rule headers_join) simp
      ultimately show ?thesis using False by (simp add: hbs hH H_def [symmetric] del: join.simps)
    next
      case tne: False
      then have out: "appendToJournal today doc bs = join (trim doc # [] # H # bs)"
        using ne single False by (simp add: appendToJournal_def Let_def H_def join_Cons)
      have "headers (join (trim doc # [] # H # bs)) = concat (map headers (trim doc # [] # H # bs))"
        by (rule headers_join) simp
      with out show ?thesis using False by (simp add: hbs hH H_def [symmetric] del: join.simps)
    qed
  next
    case True
    from hasDateHeader_nonempty [OF Hp(3) True] have tne: "trim doc \<noteq> []" .
    have out: "appendToJournal today doc bs = join (trim doc # bs)"
      using ne single True tne trim_not_endsWith_NL [of doc]
      by (simp add: appendToJournal_def Let_def H_def join_Cons)
    have "headers (join (trim doc # bs)) = concat (map headers (trim doc # bs))"
      by (rule headers_join) simp
    with out show ?thesis using True by (simp add: hbs H_def [symmetric] del: join.simps)
  qed
qed

lemma okGroups_written:
  "hasMultipleDates bs \<Longrightarrow> list_all (\<lambda>e. headers e = []) (writtenLines bs) \<Longrightarrow> okGroups (groupsOf bs)"
  by (simp add: writtenLines_def okGroups_groupsOf)

lemma okEvents_written:
  "\<not> hasMultipleDates bs \<Longrightarrow> list_all (\<lambda>e. headers e = []) (writtenLines bs) \<Longrightarrow> okEvents bs"
  by (simp add: writtenLines_def okEvents_def list_all_iff)

lemma addsFresh_appendToJournal:
  assumes nh: "list_all (\<lambda>e. headers e = []) (writtenLines bs)"
  shows "addsFresh doc (appendToJournal today doc bs)"
proof (cases "bs = []")
  case True
  then show ?thesis by (simp add: appendToJournal_def addsFresh_refl)
next
  case ne: False
  show ?thesis
  proof (cases "hasMultipleDates bs")
    case True
    note ok = okGroups_written [OF True nh]
    have "appendToJournal today doc bs = mergeMultiDateContent doc bs"
      using True ne by (simp add: appendToJournal_def)
    with ok show ?thesis using headers_mergeMultiDateContent [OF ok, of doc]
      by (intro addsFresh_groups [of "groupsOf bs"]) (simp_all add: groupDates_groupsOf)
  next
    case False
    define H where "H = formatDateHeader today"
    have h: "headers (appendToJournal today doc bs) =
         headers doc @ (if \<not> hasDateHeader doc H \<and> isDateKey H then [H] else [])"
      unfolding H_def using ne False okEvents_written [OF False nh] by (rule headers_appendToJournal_single)
    show ?thesis
    proof (cases "\<not> hasDateHeader doc H \<and> isDateKey H")
      case True
      then have "H \<notin> set (headers doc)" using hasDateHeader_headers [of H doc] by blast
      with h True show ?thesis unfolding addsFresh_def by (intro exI [of _ "[H]"]) simp
    next
      case False
      with h show ?thesis by (intro addsFresh_same) auto
    qed
  qed
qed

lemma entriesUnder_trim: "e \<in> set (entriesUnder d cur bs) \<Longrightarrow> e \<in> trim ` set bs"
  by (induction bs arbitrary: cur) (auto split: if_splits)

lemma entriesUnder_bullet: "e \<in> set (entriesUnder d cur bs) \<Longrightarrow> startsWith e (str ''- '')"
  by (induction bs arbitrary: cur) (auto split: if_splits)

lemma written_Cons:
  assumes "\<forall>b\<in>set bs. headers b = []" and "NL \<notin> set H" and "trim H = H"
  shows "list_all (\<lambda>e. headers e = []) (writtenLines (H # bs))"
proof (cases "hasMultipleDates (H # bs)")
  case True
  have "headers e = []" if "e \<in> set (concat (map snd (groupsOf (H # bs))))" for e
  proof -
    from that obtain d where "e \<in> set (entriesUnder d [] (H # bs))"
      by (auto simp: groupsOf_def simp del: entriesUnder.simps keysInOrder.simps)
    from entriesUnder_trim [OF this] obtain b where b: "b \<in> set (H # bs)" "e = trim b" by auto
    show ?thesis
    proof (cases "b = H")
      case True
      with that b have "e = H" using assms(3) by simp
      moreover from \<open>e \<in> set (entriesUnder d [] (H # bs))\<close> have "startsWith e (str ''- '')"
        by (rule entriesUnder_bullet)
      ultimately show ?thesis using headers_line [OF assms(2)] assms(3) bullet_not_key by auto
    next
      case False
      with b assms(1) show ?thesis by auto
    qed
  qed
  with True show ?thesis by (simp add: writtenLines_def list_all_iff)
next
  case False
  then have "\<not> isDateKey (trim H)" by (auto simp: hasMultipleDates_def)
  with False assms show ?thesis by (simp add: writtenLines_def headers_line list_all_iff)
qed

lemma addsFresh_overwriteJournal:
  assumes nh: "list_all (\<lambda>e. headers e = []) (writtenLines bs)"
  shows "addsFresh doc (overwriteJournal today doc bs ds)"
proof (cases "bs = []")
  case True
  then show ?thesis by (simp add: overwriteJournal_def addsFresh_refl)
next
  case ne: False
  show ?thesis
  proof (cases "hasMultipleDates bs")
    case True
    note ok = okGroups_written [OF True nh]
    have "overwriteJournal today doc bs ds = overwriteMultiDateContent today doc bs ds"
      using True ne by (simp add: overwriteJournal_def)
    with ok show ?thesis using headers_overwriteMultiDateContent [OF ok, of today doc ds]
      by (intro addsFresh_groups [of "groupsOf bs"]) (simp_all add: groupDates_groupsOf)
  next
    case single: False
    note oe = okEvents_written [OF single nh]
    define H where "H = formatDateHeader today"
    have Hp: "NL \<notin> set H" "trim H = H" "H \<noteq> []" unfolding H_def by (rule formatDateHeader_props)+
    show ?thesis
    proof (cases "H \<in> set ds")
      case False
      then have "overwriteJournal today doc bs ds = appendToJournal today doc bs"
        using ne single by (simp add: overwriteJournal_def Let_def H_def)
      then show ?thesis using addsFresh_appendToJournal [OF nh] by simp
    next
      case True
      then have o: "overwriteJournal today doc bs ds = overwriteSingleDate today doc bs H"
        using ne single by (simp add: overwriteJournal_def Let_def H_def)
      show ?thesis
      proof (cases "hasDateHeader doc H")
        case True
        from headers_overwriteSingleDate_existing [OF True oe] o show ?thesis
          by (intro addsFresh_same) simp
      next
        case False
        then have "findIndex (\<lambda>line. trim line = H) (split doc) = None"
          by (auto simp: findIndex_None hasDateHeader_def list_ex_iff)
        then have "overwriteSingleDate today doc bs H = appendToJournal today doc (H # bs)"
          by (simp add: overwriteSingleDate_def)
        moreover have "list_all (\<lambda>e. headers e = []) (writtenLines (H # bs))"
          using oe Hp(1,2) by (intro written_Cons) (simp_all add: okEvents_def)
        ultimately show ?thesis using o addsFresh_appendToJournal [of "H # bs" doc today] by simp
      qed
    qed
  qed
qed


section \<open>Runs of lines that an operation leaves alone\<close>

lemma untouchedRun_cong:
  "map trim pre = map trim pre' \<Longrightarrow> map trim post = map trim post' \<Longrightarrow>
   untouchedRun st D pre S post = untouchedRun st D pre' S post'"
proof -
  assume a: "map trim pre = map trim pre'" and b: "map trim post = map trim post'"
  have 1: "list_all (\<lambda>l. \<not> isDateKey (trim l) \<and> trim l \<notin> set D) xs
           = list_all (\<lambda>t. \<not> isDateKey t \<and> t \<notin> set D) (map trim xs)" for xs
    by (simp add: list_all_iff)
  have 2: "trim ` set xs = set (map trim xs)" for xs by simp
  have 3: "list_ex (\<lambda>l. trim l \<noteq> []) xs = list_ex (\<lambda>t. t \<noteq> []) (map trim xs)" for xs
    by (simp add: list_ex_iff)
  show ?thesis unfolding untouchedRun_def 1 2 3 a b ..
qed

lemma untouchedRun_blank_pre:
  assumes "\<forall>d\<in>set D. d \<noteq> []"
  shows "untouchedRun st D ([] # pre) S post = untouchedRun st D pre S post"
proof -
  have "list_all (\<lambda>d. d \<in> trim ` set S \<longrightarrow> d \<in> trim ` set ([] # pre)) D
      = list_all (\<lambda>d. d \<in> trim ` set S \<longrightarrow> d \<in> trim ` set pre) D"
    using assms by (auto simp: list_all_iff)
  moreover have "[] \<notin> set D" using assms by auto
  ultimately show ?thesis unfolding untouchedRun_def by simp
qed

lemma untouchedRun_blank_post:
  "untouchedRun st D pre S (post @ [[]]) = untouchedRun st D pre S post"
  unfolding untouchedRun_def by simp

lemma untouchedRun_left:
  assumes "untouchedRun st D [] S post"
  shows "hd S \<noteq> []" "\<not> isSpace (hd (hd S))" "S \<noteq> []"
  using assms by (simp_all add: untouchedRun_def)

lemma untouchedRun_right:
  assumes "untouchedRun st D pre S []"
  shows "last S \<noteq> []" "\<not> isSpace (last (last S))" "S \<noteq> []"
  using assms by (simp_all add: untouchedRun_def)

lemma split_Cons_space:
  assumes "c \<noteq> NL"
  shows "split (c # r) = (c # hd (split r)) # tl (split r)"
  using assms by (cases "split r") simp_all

lemma keepsRun_trimStart:
  assumes D: "\<forall>d\<in>set D. d \<noteq> []"
  shows "split r = pre @ S @ post \<Longrightarrow> untouchedRun st D pre S post
         \<Longrightarrow> \<exists>pre'. split (trimStart r) = pre' @ S @ post \<and> untouchedRun st D pre' S post"
proof (induction r arbitrary: pre)
  case Nil
  then show ?case by (auto simp: trimStart_def)
next
  case (Cons c r)
  show ?case
  proof (cases "isSpace c")
    case False
    then have "trimStart (c # r) = c # r" by (simp add: trimStart_def)
    with Cons.prems show ?thesis by auto
  next
    case sp: True
    then have ts: "trimStart (c # r) = trimStart r" by (simp add: trimStart_def)
    show ?thesis
    proof (cases "c = NL")
      case True
      then have s: "[] # split r = pre @ S @ post" using Cons.prems(1) by simp
      have "pre \<noteq> []"
      proof
        assume "pre = []"
        with s untouchedRun_left [of st D S post] Cons.prems(2) show False
          by (cases S) auto
      qed
      then obtain pre0 where p: "pre = [] # pre0" using s by (cases pre) auto
      with s have "split r = pre0 @ S @ post" by simp
      moreover have "untouchedRun st D pre0 S post"
        using Cons.prems(2) unfolding p untouchedRun_blank_pre [OF D] .
      ultimately show ?thesis unfolding ts by (rule Cons.IH)
    next
      case False
      then have s: "(c # hd (split r)) # tl (split r) = pre @ S @ post"
        using Cons.prems(1) split_Cons_space [of c r] by simp
      have "pre \<noteq> []"
      proof
        assume "pre = []"
        with s untouchedRun_left [of st D S post] Cons.prems(2) sp show False
          by (cases S) auto
      qed
      then obtain pre0 where p: "pre = (c # hd (split r)) # pre0" and t: "tl (split r) = pre0 @ S @ post"
        using s by (cases pre) auto
      have "split r = hd (split r) # tl (split r)" by (cases "split r") simp_all
      with t have "split r = (hd (split r) # pre0) @ S @ post" by simp
      moreover have "map trim pre = map trim (hd (split r) # pre0)"
        unfolding p using sp by (simp add: trim_space_Cons)
      then have "untouchedRun st D (hd (split r) # pre0) S post"
        using Cons.prems(2) untouchedRun_cong [of pre "hd (split r) # pre0" post post] by simp
      ultimately show ?thesis unfolding ts by (rule Cons.IH)
    qed
  qed
qed

lemma split_snoc_NL: "split (r @ [NL]) = split r @ [[]]"
  using split_append_NL [of r "[]"] by simp

lemma keepsRun_trimEnd:
  "split r = pre @ S @ post \<Longrightarrow> untouchedRun st D pre S post
   \<Longrightarrow> \<exists>post'. split (trimEnd r) = pre @ S @ post' \<and> untouchedRun st D pre S post'"
proof (induction r arbitrary: post rule: rev_induct)
  case Nil
  then show ?case by (auto simp: trimEnd_def)
next
  case (snoc c r)
  show ?case
  proof (cases "isSpace c")
    case False
    then have "trimEnd (r @ [c]) = r @ [c]" by (simp add: trimEnd_snoc_if)
    with snoc.prems show ?thesis by auto
  next
    case sp: True
    then have ts: "trimEnd (r @ [c]) = trimEnd r" by (simp add: trimEnd_snoc_if)
    show ?thesis
    proof (cases "c = NL")
      case True
      then have s: "split r @ [[]] = pre @ S @ post" using snoc.prems(1) split_snoc_NL [of r] by simp
      have "post \<noteq> []"
      proof
        assume "post = []"
        with s have "last S = []" using untouchedRun_right(3) [of st D pre S] snoc.prems(2)
          by (metis append_Nil2 last_appendR last_snoc)
        with \<open>post = []\<close> untouchedRun_right(1) [of st D pre S] snoc.prems(2) show False by simp
      qed
      then obtain post0 where p: "post = post0 @ [[]]" using s
        by (metis append_butlast_last_id last_appendR last_snoc append_assoc)
      with s have "split r = pre @ S @ post0" by simp
      moreover have "untouchedRun st D pre S post0"
        using snoc.prems(2) unfolding p untouchedRun_blank_post .
      ultimately show ?thesis unfolding ts by (rule snoc.IH)
    next
      case False
      define l where "l = last (split r)"
      have sr: "split r = butlast (split r) @ [l]" unfolding l_def by simp
      from False have s: "butlast (split r) @ [l @ [c]] = pre @ S @ post"
        using snoc.prems(1) split_snoc [of c r] by (simp add: l_def)
      have "post \<noteq> []"
      proof
        assume e: "post = []"
        with s have "last S = l @ [c]" using untouchedRun_right(3) [of st D pre S] snoc.prems(2)
          by (metis append_Nil2 last_appendR last_snoc)
        with e untouchedRun_right(2) [of st D pre S] snoc.prems(2) sp show False by simp
      qed
      then obtain post0 where p: "post = post0 @ [l @ [c]]" and b: "butlast (split r) = pre @ S @ post0"
        using s by (metis append_butlast_last_id last_appendR last_snoc append_assoc butlast_snoc butlast_append)
      from sr b have "split r = pre @ S @ (post0 @ [l])" by simp
      moreover have "map trim post = map trim (post0 @ [l])"
        unfolding p using sp by (simp add: trim_space_snoc)
      then have "untouchedRun st D pre S (post0 @ [l])"
        using snoc.prems(2) untouchedRun_cong [of pre pre post "post0 @ [l]"] by simp
      ultimately show ?thesis unfolding ts by (rule snoc.IH)
    qed
  qed
qed

lemma keepsRun_trim:
  assumes "\<forall>d\<in>set D. d \<noteq> []" and "keepsRun st D S r"
  shows "keepsRun st D S (trim r)"
proof -
  from assms(2) obtain pre post where "split r = pre @ S @ post" "untouchedRun st D pre S post"
    unfolding keepsRun_def by blast
  from keepsRun_trimStart [OF assms(1) this] obtain pre' where
    "split (trimStart r) = pre' @ S @ post" "untouchedRun st D pre' S post" by blast
  from keepsRun_trimEnd [OF this] show ?thesis unfolding keepsRun_def trim_def by blast
qed

lemma untouchedRun_post:
  "untouchedRun st D pre S post \<Longrightarrow> (list_ex (\<lambda>l. trim l \<noteq> []) post \<longrightarrow> list_ex (\<lambda>l. trim l \<noteq> []) post')
   \<Longrightarrow> untouchedRun st D pre S post'"
  unfolding untouchedRun_def by blast

lemma untouchedRun_pre:
  assumes "untouchedRun st D pre S post" and "st (hd S)"
    and "\<forall>d\<in>set D. d \<in> trim ` set pre \<longrightarrow> d \<in> trim ` set pre'"
    and "list_ex (\<lambda>l. trim l \<noteq> []) pre \<longrightarrow> list_ex (\<lambda>l. trim l \<noteq> []) pre'"
  shows "untouchedRun st D pre' S post"
  using assms unfolding untouchedRun_def by (auto simp: list_all_iff)

lemma where_is_h:
  assumes "xs @ h # ys = pre @ S @ post"
  shows "(\<exists>C. pre = xs @ h # C \<and> ys = C @ S @ post)
       \<or> (\<exists>S1 S2. S = S1 @ h # S2 \<and> xs = pre @ S1 \<and> ys = S2 @ post)
       \<or> (\<exists>P1. post = P1 @ h # ys \<and> xs = pre @ S @ P1)"
proof -
  from assms consider u where "xs = pre @ u" "u @ h # ys = S @ post" | u where "xs @ u = pre" "h # ys = u @ S @ post" "u \<noteq> []"
    by (auto simp: append_eq_append_conv2) (metis append_Nil2)+
  then show ?thesis
  proof cases
    case 1
    from 1(2) consider v where "u = S @ v" "v @ h # ys = post" | v where "u @ v = S" "h # ys = v @ post" "v \<noteq> []"
      by (auto simp: append_eq_append_conv2) (metis append_Nil2)+
    then show ?thesis
    proof cases
      case 1
      with \<open>xs = pre @ u\<close> show ?thesis by auto
    next
      case 2
      from 2(2,3) obtain v' where "v = h # v'" "ys = v' @ post" by (cases v) auto
      with 2(1) \<open>xs = pre @ u\<close> show ?thesis by auto
    qed
  next
    case 2
    from 2(2,3) obtain u' where "u = h # u'" "ys = u' @ S @ post" by (cases u) auto
    with 2(1) show ?thesis by auto
  qed
qed

lemma takeWhile_stop:
  "S \<noteq> [] \<Longrightarrow> \<not> P (hd S) \<Longrightarrow> takeWhile P (C @ S @ post) = takeWhile P C"
  "S \<noteq> [] \<Longrightarrow> \<not> P (hd S) \<Longrightarrow> dropWhile P (C @ S @ post) = dropWhile P C @ S @ post"
  by (induction C) (auto simp: neq_Nil_conv)

lemma split_join_lines:
  assumes "\<forall>l\<in>set X. NL \<notin> set l" "\<forall>l\<in>set Y. NL \<notin> set l" "X \<noteq> []"
  shows "split (join (X @ es @ Y)) = X @ concat (map split es) @ Y"
proof -
  have "split (join (X @ es @ Y)) = concat (map split (X @ es @ Y))"
    using assms(3) by (intro split_join_concat) simp
  then show ?thesis using concat_split_lines [OF assms(1)] concat_split_lines [OF assms(2)] by simp
qed

lemma overwriteSingleDate_first:
  assumes sp: "split r = pre @ h # rest" and h: "trim h = d" and pre: "\<forall>l\<in>set pre. trim l \<noteq> d"
  shows "overwriteSingleDate today r es d = join (pre @ h # es @ dropWhile (\<lambda>l. \<not> isDateKey (trim l)) rest)"
proof -
  define Q where "Q = (\<lambda>l. \<not> isDateKey (trim l))"
  have "split r = pre @ h # takeWhile Q rest @ dropWhile Q rest" using sp by simp
  moreover have "\<forall>l\<in>set (takeWhile Q rest). \<not> isDateKey (trim l)"
    by (auto simp: Q_def dest: set_takeWhileD)
  moreover have "dropWhile Q rest = [] \<or> isDateKey (trim (hd (dropWhile Q rest)))"
    using hd_dropWhile [of Q rest] by (auto simp: Q_def)
  ultimately have "overwriteSingleDate today r es d = join (pre @ h # es @ dropWhile Q rest)"
    using h pre by (intro overwriteSingleDate_existing) auto
  then show ?thesis by (simp add: Q_def)
qed

lemma first_line:
  assumes "findIndex (\<lambda>l. trim l = d) L = Some i"
  shows "\<exists>A h B. L = A @ h # B \<and> trim h = d \<and> (\<forall>l\<in>set A. trim l \<noteq> d)"
proof -
  from findIndex_Some [OF assms] have i: "i < length L" "trim (L ! i) = d" "\<forall>j<i. trim (L ! j) \<noteq> d" by auto
  have "L = take i L @ L ! i # drop (Suc i) L" using i(1) by (simp add: id_take_nth_drop)
  moreover have "\<forall>l\<in>set (take i L). trim l \<noteq> d"
  proof
    fix l assume "l \<in> set (take i L)"
    then obtain j where "j < length (take i L)" "l = take i L ! j" by (auto simp: in_set_conv_nth)
    then have "j < i" "l = L ! j" by simp_all
    with i(3) show "trim l \<noteq> d" by simp
  qed
  ultimately show ?thesis using i(2) by blast
qed

lemma first_line_ex:
  assumes "hasDateHeader r d"
  shows "\<exists>A h B. split r = A @ h # B \<and> trim h = d \<and> (\<forall>l\<in>set A. trim l \<noteq> d)"
proof -
  from assms have "\<not> (\<forall>x\<in>set (split r). trim x \<noteq> d)" by (auto simp: hasDateHeader_def list_ex_iff)
  then obtain i where "findIndex (\<lambda>line. trim line = d) (split r) = Some i"
    using findIndex_None [of "\<lambda>line. trim line = d" "split r"]
    by (cases "findIndex (\<lambda>line. trim line = d) (split r)") auto
  then show ?thesis by (rule first_line)
qed

lemma target_not_in_run:
  assumes U: "untouchedRun st D pre S post" and d: "d \<in> set D"
    and L: "A @ h # B = pre @ S @ post" and h: "trim h = d" and A: "\<forall>l\<in>set A. trim l \<noteq> d"
  shows "(\<exists>C. pre = A @ h # C \<and> B = C @ S @ post) \<or> (\<exists>P1. post = P1 @ h # B \<and> A = pre @ S @ P1)"
proof -
  from where_is_h [OF L] consider
      C where "pre = A @ h # C" "B = C @ S @ post"
    | S1 S2 where "S = S1 @ h # S2" "A = pre @ S1" "B = S2 @ post"
    | P1 where "post = P1 @ h # B" "A = pre @ S @ P1" by blast
  then show ?thesis
  proof cases
    case 2
    then have "d \<in> trim ` set S" using h by force
    with U d have "d \<in> trim ` set pre" by (auto simp: untouchedRun_def list_all_iff)
    with 2(2) A show ?thesis by auto
  qed blast+
qed

lemma nonblank_grow:
  "set xs \<subseteq> set ys \<Longrightarrow> list_ex (\<lambda>l. trim l \<noteq> []) xs \<longrightarrow> list_ex (\<lambda>l. trim l \<noteq> []) ys"
  by (auto simp: list_ex_iff)

lemma keepsRun_nonempty: "keepsRun st D S r \<Longrightarrow> r \<noteq> []"
proof
  assume k: "keepsRun st D S r" and "r = []"
  then obtain pre post where s: "[[]] = pre @ S @ post" and U: "untouchedRun st D pre S post"
    unfolding keepsRun_def by auto
  from U have "S \<noteq> []" by (simp add: untouchedRun_def)
  with s have "pre = []" "post = []" "S = [[]]"
    by (auto simp: Cons_eq_append_conv append_eq_Cons_conv)
  with U show False by (simp add: untouchedRun_def)
qed

lemma keepsRun_append_text:
  assumes "keepsRun st D S r"
  shows "keepsRun st D S (r @ NL # X)"
proof -
  from assms obtain pre post where s: "split r = pre @ S @ post" and U: "untouchedRun st D pre S post"
    unfolding keepsRun_def by auto
  have "split (r @ NL # X) = pre @ S @ (post @ split X)" by (simp add: split_append_NL s)
  moreover have "untouchedRun st D pre S (post @ split X)"
    using U by (rule untouchedRun_post) (auto simp: list_ex_iff)
  ultimately show ?thesis unfolding keepsRun_def by blast
qed

lemma keepsRun_mergeSection:
  assumes d: "d \<in> set D" and key: "isDateKey d"
    and st: "\<forall>l. st l \<longrightarrow> \<not> isEntryOrBlank l"
    and k: "keepsRun st D S r"
  shows "keepsRun st D S (mergeSection r (d, es))"
proof (cases "es = []")
  case True
  with k show ?thesis by (simp add: mergeSection_def)
next
  case ne: False
  show ?thesis
  proof (cases "hasDateHeader r d")
    case False
    have "mergeSection r (d, es) = r @ NL # (NL # d @ NL # join es)"
      using False ne keepsRun_nonempty [OF k] by (simp add: mergeSection_def)
    then show ?thesis using keepsRun_append_text [OF k] by simp
  next
    case True
    from first_line_ex [OF True] obtain A h B where
      L: "split r = A @ h # B" and h: "trim h = d" and A: "\<forall>l\<in>set A. trim l \<noteq> d" by blast
    define BB where "BB = (\<lambda>l. startsWith l (str ''- '') \<or> trim l = [])"
    have m: "mergeSection r (d, es) = join (A @ h # takeWhile BB B @ es @ dropWhile BB B)"
      unfolding BB_def using L h A ne by (intro mergeSection_first) (auto simp: list_all_iff)
    from k obtain pre post where s: "split r = pre @ S @ post" and U: "untouchedRun st D pre S post"
      unfolding keepsRun_def by auto
    have nl: "\<forall>l\<in>set (split r). NL \<notin> set l" using split_lines_noNL by blast
    then have nlA: "\<forall>l\<in>set A. NL \<notin> set l" and nlh: "NL \<notin> set h" and nlB: "\<forall>l\<in>set B. NL \<notin> set l"
      unfolding L by simp_all
    have tB: "set (takeWhile BB B) \<subseteq> set B" "set (dropWhile BB B) \<subseteq> set B"
      by (auto dest: set_takeWhileD set_dropWhileD)
    from U have Sne: "S \<noteq> []" by (simp add: untouchedRun_def)
    have Leq: "A @ h # B = pre @ S @ post" using L s by simp
    from target_not_in_run [OF U d Leq h A] consider
        C where "pre = A @ h # C" "B = C @ S @ post"
      | P1 where "post = P1 @ h # B" "A = pre @ S @ P1" by blast
    then show ?thesis
    proof cases
      case 1
      have "isDateKey (trim h)" using h key by simp
      moreover have "trim h \<in> set D" using h d by simp
      ultimately have "\<not> list_all (\<lambda>l. \<not> isDateKey (trim l) \<and> trim l \<notin> set D) pre"
        unfolding 1(1) by simp
      with U have sh: "st (hd S)" by (auto simp: untouchedRun_def)
      with st have nb: "\<not> BB (hd S)" by (auto simp: BB_def isEntryOrBlank_def)
      define pre' where "pre' = A @ h # takeWhile BB C @ concat (map split es) @ dropWhile BB C"
      have tw: "takeWhile BB B = takeWhile BB C" "dropWhile BB B = dropWhile BB C @ S @ post"
        unfolding 1(2) using takeWhile_stop(1) [where P = BB and S = S and C = C and post = post, OF Sne nb]
          takeWhile_stop(2) [where P = BB and S = S and C = C and post = post, OF Sne nb]
        by auto
      have X: "\<forall>l\<in>set (A @ h # takeWhile BB C). NL \<notin> set l"
        using nlA nlh nlB tB(1) unfolding tw(1) by auto
      have Y: "\<forall>l\<in>set (dropWhile BB C @ S @ post). NL \<notin> set l"
        using nlB tB(2) unfolding tw(2) by blast
      have "split (join ((A @ h # takeWhile BB C) @ es @ (dropWhile BB C @ S @ post)))
            = (A @ h # takeWhile BB C) @ concat (map split es) @ (dropWhile BB C @ S @ post)"
        using X Y by (rule split_join_lines) simp
      then have sp': "split (mergeSection r (d, es)) = pre' @ S @ post"
        unfolding m tw by (simp add: pre'_def)
      have "set C = set (takeWhile BB C) \<union> set (dropWhile BB C)"
        by (metis set_append takeWhile_dropWhile_id)
      then have sub: "set pre \<subseteq> set pre'"
        unfolding 1(1) pre'_def by auto
      have "\<forall>d\<in>set D. d \<in> trim ` set pre \<longrightarrow> d \<in> trim ` set pre'" using sub by blast
      with U sh have "untouchedRun st D pre' S post"
        using nonblank_grow [OF sub] by (rule untouchedRun_pre)
      with sp' show ?thesis unfolding keepsRun_def by blast
    next
      case 2
      define post' where "post' = P1 @ h # takeWhile BB B @ concat (map split es) @ dropWhile BB B"
      have "set A = set pre \<union> set S \<union> set P1" unfolding 2(2) by auto
      then have X: "\<forall>l\<in>set (pre @ S @ P1 @ h # takeWhile BB B). NL \<notin> set l"
        using nlA nlh nlB tB(1) by auto
      have Y: "\<forall>l\<in>set (dropWhile BB B). NL \<notin> set l"
        using nlB tB(2) by blast
      have "split (join ((pre @ S @ P1 @ h # takeWhile BB B) @ es @ dropWhile BB B))
            = (pre @ S @ P1 @ h # takeWhile BB B) @ concat (map split es) @ dropWhile BB B"
        using X Y by (rule split_join_lines) simp
      then have sp': "split (mergeSection r (d, es)) = pre @ S @ post'"
        unfolding m 2(2) by (simp add: post'_def)
      have "set B = set (takeWhile BB B) \<union> set (dropWhile BB B)"
        by (metis set_append takeWhile_dropWhile_id)
      then have sub: "set post \<subseteq> set post'"
        unfolding 2(1) post'_def by auto
      have "untouchedRun st D pre S post'"
        using U nonblank_grow [OF sub] by (rule untouchedRun_post)
      with sp' show ?thesis unfolding keepsRun_def by blast
    qed
  qed
qed

lemma keepsRun_weaken:
  assumes "\<forall>l. st l \<longrightarrow> st' l" and "set D' \<subseteq> set D" and "keepsRun st D S r"
  shows "keepsRun st' D' S r"
proof -
  from assms(3) obtain pre post where s: "split r = pre @ S @ post" and U: "untouchedRun st D pre S post"
    unfolding keepsRun_def by auto
  from U assms(1,2) have "untouchedRun st' D' pre S post"
    unfolding untouchedRun_def list_all_iff by blast
  with s show ?thesis unfolding keepsRun_def by blast
qed

lemma keepsRun_sublist: "keepsRun st D S r \<Longrightarrow> sublist S (split r)"
  unfolding keepsRun_def sublist_def by blast

lemma dropWhile_stop_set:
  "l \<in> set C \<Longrightarrow> \<not> Q l \<Longrightarrow> l \<in> set (dropWhile Q C)"
  by (induction C) auto

lemma keepsRun_overwrite_inplace:
  assumes d: "d \<in> set D" and others: "\<forall>d'\<in>set D. d' = d \<or> isDateKey d'" and dne: "d \<noteq> []"
    and st: "\<forall>l. st l \<longrightarrow> isDateKey (trim l)"
    and k: "keepsRun st D S r" and has: "hasDateHeader r d"
  shows "keepsRun st D S (overwriteSingleDate today r new d)"
proof -
  define Q where "Q = (\<lambda>l. \<not> isDateKey (trim l))"
  from first_line_ex [OF has] obtain A h B where
    L: "split r = A @ h # B" and h: "trim h = d" and A: "\<forall>l\<in>set A. trim l \<noteq> d" by blast
  have m: "overwriteSingleDate today r new d = join (A @ h # new @ dropWhile Q B)"
    unfolding Q_def using L h A by (rule overwriteSingleDate_first)
  from k obtain pre post where s: "split r = pre @ S @ post" and U: "untouchedRun st D pre S post"
    unfolding keepsRun_def by auto
  have nl: "\<forall>l\<in>set (split r). NL \<notin> set l" using split_lines_noNL by blast
  then have nlA: "\<forall>l\<in>set A. NL \<notin> set l" and nlh: "NL \<notin> set h" and nlB: "\<forall>l\<in>set B. NL \<notin> set l"
    unfolding L by simp_all
  have tB: "set (dropWhile Q B) \<subseteq> set B" by (auto dest: set_dropWhileD)
  have X: "\<forall>l\<in>set (A @ [h]). NL \<notin> set l" using nlA nlh by simp
  have Y: "\<forall>l\<in>set (dropWhile Q B). NL \<notin> set l" using nlB tB by blast
  have "split (join ((A @ [h]) @ new @ dropWhile Q B)) = (A @ [h]) @ concat (map split new) @ dropWhile Q B"
    using X Y by (rule split_join_lines) simp
  then have sp: "split (overwriteSingleDate today r new d) = A @ h # concat (map split new) @ dropWhile Q B"
    unfolding m by simp
  from U have Sne: "S \<noteq> []" by (simp add: untouchedRun_def)
  have hnb: "trim h \<noteq> []" using h dne by simp
  have Leq: "A @ h # B = pre @ S @ post" using L s by simp
  from target_not_in_run [OF U d Leq h A] consider
      C where "pre = A @ h # C" "B = C @ S @ post"
    | P1 where "post = P1 @ h # B" "A = pre @ S @ P1" by blast
  then show ?thesis
  proof cases
    case 1
    have "trim h \<in> set D" using h d by simp
    then have "\<not> list_all (\<lambda>l. \<not> isDateKey (trim l) \<and> trim l \<notin> set D) pre"
      unfolding 1(1) by simp
    with U have sh: "st (hd S)" by (auto simp: untouchedRun_def)
    with st have nq: "\<not> Q (hd S)" by (auto simp: Q_def)
    define pre' where "pre' = A @ h # concat (map split new) @ dropWhile Q C"
    have dw: "dropWhile Q B = dropWhile Q C @ S @ post"
      unfolding 1(2) using takeWhile_stop(2) [where P = Q and S = S and C = C and post = post, OF Sne nq] .
    have sp': "split (overwriteSingleDate today r new d) = pre' @ S @ post"
      unfolding sp dw by (simp add: pre'_def)
    have c2: "\<forall>d'\<in>set D. d' \<in> trim ` set pre \<longrightarrow> d' \<in> trim ` set pre'"
    proof (intro ballI impI)
      fix d' assume d': "d' \<in> set D" and "d' \<in> trim ` set pre"
      then obtain l where l: "l \<in> set pre" "trim l = d'" by auto
      show "d' \<in> trim ` set pre'"
      proof (cases "d' = d")
        case True
        have "h \<in> set pre'" by (simp add: pre'_def)
        with h True show ?thesis by blast
      next
        case False
        with others d' have "isDateKey d'" by auto
        then have nQ: "\<not> Q l" using l(2) by (simp add: Q_def)
        from l(1) have "l \<in> set A \<or> l = h \<or> l \<in> set C" unfolding 1(1) by auto
        moreover have "l \<in> set (dropWhile Q C)" if "l \<in> set C"
          using that nQ by (rule dropWhile_stop_set)
        ultimately have "l \<in> set pre'" unfolding pre'_def by auto
        with l(2) show ?thesis by blast
      qed
    qed
    have "h \<in> set pre'" by (simp add: pre'_def)
    with hnb have "list_ex (\<lambda>l. trim l \<noteq> []) pre'" unfolding list_ex_iff by blast
    then have c3: "list_ex (\<lambda>l. trim l \<noteq> []) pre \<longrightarrow> list_ex (\<lambda>l. trim l \<noteq> []) pre'" by simp
    from U sh c2 c3 have "untouchedRun st D pre' S post" by (rule untouchedRun_pre)
    with sp' show ?thesis unfolding keepsRun_def by blast
  next
    case 2
    define post' where "post' = P1 @ h # concat (map split new) @ dropWhile Q B"
    have sp': "split (overwriteSingleDate today r new d) = pre @ S @ post'"
      unfolding sp 2(2) by (simp add: post'_def)
    have "h \<in> set post'" by (simp add: post'_def)
    with hnb have "list_ex (\<lambda>l. trim l \<noteq> []) post'" unfolding list_ex_iff by blast
    then have "list_ex (\<lambda>l. trim l \<noteq> []) post \<longrightarrow> list_ex (\<lambda>l. trim l \<noteq> []) post'" by simp
    with U have "untouchedRun st D pre S post'" by (rule untouchedRun_post)
    with sp' show ?thesis unfolding keepsRun_def by blast
  qed
qed

lemma trimEnd_Cons: "\<not> isSpace c \<Longrightarrow> trimEnd (c # s) = c # trimEnd s"
proof -
  assume c: "\<not> isSpace c"
  show ?thesis
  proof (cases "\<forall>x\<in>set (rev s). isSpace x")
    case True
    then have "dropWhile isSpace (rev s @ [c]) = dropWhile isSpace [c]" "dropWhile isSpace (rev s) = []"
      by (simp_all only: dropWhile_append2 dropWhile_eq_Nil_conv)
    then have "dropWhile isSpace (rev s @ [c]) = [c]" "dropWhile isSpace (rev s) = []"
      using c by simp_all
    then show ?thesis by (simp add: trimEnd_def)
  next
    case False
    then obtain x where "x \<in> set (rev s)" "\<not> isSpace x" by blast
    then have "dropWhile isSpace (rev s @ [c]) = dropWhile isSpace (rev s) @ [c]"
      by (rule dropWhile_append1)
    then show ?thesis by (simp add: trimEnd_def)
  qed
qed

lemma header_not_entry: "isDateKey (trim l) \<Longrightarrow> \<not> isEntryOrBlank l"
proof
  assume k: "isDateKey (trim l)" and "isEntryOrBlank l"
  with isDateKey_Nil have "startsWith l (str ''- '')" by (auto simp: isEntryOrBlank_def)
  then obtain rest where l: "l = 45 # 32 # rest" by (auto simp: startsWith_def prefix_def)
  have "\<not> isSpace 45" by (simp add: isSpace_def)
  then have "trim l = 45 # trimEnd (32 # rest)"
    unfolding l trim_def by (simp add: trimStart_def trimEnd_Cons)
  with isDateKey_chars [OF k] show False by (simp add: isDigit_def)
qed

lemma keepsRun_append_group:
  assumes d: "d \<in> set D" and key: "isDateKey d" and es: "okBullets es"
    and D: "\<forall>d\<in>set D. d \<noteq> []"
    and st: "\<forall>l. st l \<longrightarrow> \<not> isEntryOrBlank l"
    and k: "keepsRun st D S r"
  shows "keepsRun st D S (appendToJournal today r (d # es))"
  unfolding appendToJournal_group [OF key es]
  using d key st keepsRun_trim [OF D k] by (rule keepsRun_mergeSection)

lemma keepsRun_overwriteSection:
  assumes d: "es \<noteq> [] \<longrightarrow> d \<in> set D" and key: "isDateKey d" and es: "okBullets es"
    and D: "\<forall>d\<in>set D. isDateKey d"
    and st: "\<forall>l. st l \<longrightarrow> isDateKey (trim l)"
    and k: "keepsRun st D S r"
  shows "keepsRun st D S (overwriteSection today ds r (d, es))"
proof (cases "es = []")
  case True
  with k show ?thesis by (simp add: overwriteSection_def)
next
  case False
  with d have dD: "d \<in> set D" by simp
  have Dne: "\<forall>d\<in>set D. d \<noteq> []" using D by auto
  have st': "\<forall>l. st l \<longrightarrow> \<not> isEntryOrBlank l" using st header_not_entry by blast
  note app = keepsRun_append_group [OF dD key es Dne st' k, of today]
  show ?thesis
  proof (cases "d \<in> set ds")
    case inn: True
    show ?thesis
    proof (cases "hasDateHeader r d")
      case True
      have "keepsRun st D S (overwriteSingleDate today r es d)"
        using dD _ _ st k True by (rule keepsRun_overwrite_inplace) (use D key in auto)
      with inn False show ?thesis by (simp add: overwriteSection_def)
    next
      case no: False
      from overwriteSingleDate_missing(1) [OF key es False no, of today] app inn False
      show ?thesis by (simp add: overwriteSection_def)
    qed
  next
    case out: False
    with False app show ?thesis by (simp add: overwriteSection_def)
  qed
qed

lemma keepsRun_foldl_mergeSection:
  assumes "\<forall>(d, es)\<in>set gs. isDateKey d \<and> (es \<noteq> [] \<longrightarrow> d \<in> set D)"
    and st: "\<forall>l. st l \<longrightarrow> \<not> isEntryOrBlank l"
  shows "keepsRun st D S r \<Longrightarrow> keepsRun st D S (foldl mergeSection r gs)"
  using assms(1)
proof (induction gs arbitrary: r)
  case Nil
  then show ?case by simp
next
  case (Cons g gs)
  obtain d es where g: "g = (d, es)" by (cases g)
  have "keepsRun st D S (mergeSection r (d, es))"
  proof (cases "es = []")
    case True
    with Cons.prems(1) show ?thesis by (simp add: mergeSection_def)
  next
    case False
    with Cons.prems(2) g have "d \<in> set D" "isDateKey d" by auto
    then show ?thesis using st Cons.prems(1) by (rule keepsRun_mergeSection)
  qed
  with Cons.IH [of "mergeSection r (d, es)"] Cons.prems(2) g show ?case by simp
qed

lemma keepsRun_foldl_overwriteSection:
  assumes "\<forall>(d, es)\<in>set gs. isDateKey d \<and> okBullets es \<and> (es \<noteq> [] \<longrightarrow> d \<in> set D)"
    and D: "\<forall>d\<in>set D. isDateKey d"
    and st: "\<forall>l. st l \<longrightarrow> isDateKey (trim l)"
  shows "keepsRun st D S r \<Longrightarrow> keepsRun st D S (foldl (overwriteSection today ds) r gs)"
  using assms(1)
proof (induction gs arbitrary: r)
  case Nil
  then show ?case by simp
next
  case (Cons g gs)
  obtain d es where g: "g = (d, es)" by (cases g)
  with Cons.prems(2) have "es \<noteq> [] \<longrightarrow> d \<in> set D" "isDateKey d" "okBullets es" by auto
  then have "keepsRun st D S (overwriteSection today ds r (d, es))"
    using D st Cons.prems(1) by (rule keepsRun_overwriteSection)
  with Cons.IH [of "overwriteSection today ds r (d, es)"] Cons.prems(2) g show ?case by simp
qed

lemma groups_targets:
  "\<forall>(d, es)\<in>set (groupsOf bs). isDateKey d \<and> okBullets es \<and> (es \<noteq> [] \<longrightarrow> d \<in> set (groupDates bs))"
  using okBullets_groupsOf [of bs] keysInOrder_keys [of _ bs]
  by (auto simp: groupsOf_def groupDates_def)

lemma groupDates_keys: "\<forall>d\<in>set (groupDates bs). isDateKey d"
  using keysInOrder_keys [of _ bs] by (auto simp: groupDates_def)

lemma keepsRun_appendToJournal:
  assumes "keepsRun (\<lambda>l. \<not> isEntryOrBlank l) (appendTargets bs) S doc"
  shows "keepsRun (\<lambda>l. \<not> isEntryOrBlank l) (appendTargets bs) S (appendToJournal today doc bs)"
proof (cases "bs = []")
  case True
  with assms show ?thesis by (simp add: appendToJournal_def)
next
  case ne: False
  define st where "st = (\<lambda>l. \<not> isEntryOrBlank l)"
  show ?thesis
  proof (cases "hasMultipleDates bs")
    case True
    then have D: "appendTargets bs = groupDates bs" by (simp add: appendTargets_def)
    have Dne: "\<forall>d\<in>set (groupDates bs). d \<noteq> []" using groupDates_keys [of bs] by auto
    have "keepsRun st (groupDates bs) S (trim doc)"
      using Dne assms unfolding D st_def by (rule keepsRun_trim)
    then have "keepsRun st (groupDates bs) S (foldl mergeSection (trim doc) (groupsOf bs))"
      using groups_targets [of bs] by (intro keepsRun_foldl_mergeSection) (auto simp: st_def)
    then show ?thesis using True ne
      by (simp add: D st_def appendToJournal_def mergeMultiDateContent_def parseBullets_groupsOf)
  next
    case False
    then have D: "appendTargets bs = []" by (simp add: appendTargets_def)
    have kt: "keepsRun st [] S (trim doc)" using assms unfolding D st_def by (intro keepsRun_trim) auto
    then have tne: "trim doc \<noteq> []" by (rule keepsRun_nonempty)
    define H where "H = formatDateHeader today"
    have "\<exists>X. appendToJournal today doc bs = trim doc @ NL # X"
    proof (cases "hasDateHeader doc H")
      case True
      then show ?thesis using ne False tne trim_not_endsWith_NL [of doc]
        by (simp add: appendToJournal_def Let_def H_def)
    next
      case no: False
      then show ?thesis using ne False tne by (simp add: appendToJournal_def Let_def H_def)
    qed
    then obtain X where "appendToJournal today doc bs = trim doc @ NL # X" by blast
    with keepsRun_append_text [OF kt, of X] show ?thesis by (simp add: D st_def)
  qed
qed

lemma keysInOrder_single: "\<not> hasMultipleDates bs \<Longrightarrow> keysInOrder bs = []"
  by (induction bs) (auto simp: hasMultipleDates_def)

lemma groupDates_subset: "set (groupDates bs) \<subseteq> set (keysInOrder bs)"
  by (auto simp: groupDates_def)

lemma sublist_overwriteJournal:
  assumes "keepsRun (\<lambda>l. isDateKey (trim l)) (overwriteTargets today bs ds) S doc"
  shows "sublist S (split (overwriteJournal today doc bs ds))"
proof (cases "bs = []")
  case True
  with assms show ?thesis by (simp add: overwriteJournal_def keepsRun_sublist)
next
  case ne: False
  define st where "st = (\<lambda>l. isDateKey (trim l))"
  have st': "\<forall>l. st l \<longrightarrow> \<not> isEntryOrBlank l" using header_not_entry by (simp add: st_def)
  show ?thesis
  proof (cases "hasMultipleDates bs")
    case True
    then have D: "overwriteTargets today bs ds = groupDates bs" by (simp add: overwriteTargets_def)
    have "keepsRun st (groupDates bs) S (foldl (overwriteSection today ds) doc (groupsOf bs))"
      using groups_targets [of bs] groupDates_keys [of bs] _ assms [unfolded D, folded st_def]
      by (rule keepsRun_foldl_overwriteSection) (simp add: st_def)
    then have "sublist S (split (foldl (overwriteSection today ds) doc (groupsOf bs)))"
      by (rule keepsRun_sublist)
    then show ?thesis using True ne
      by (simp add: overwriteJournal_def overwriteMultiDateContent_def parseBullets_groupsOf)
  next
    case single: False
    define H where "H = formatDateHeader today"
    have Hp: "NL \<notin> set H" "trim H = H" "H \<noteq> []" unfolding H_def by (rule formatDateHeader_props)+
    show ?thesis
    proof (cases "H \<in> set ds")
      case False
      then have o: "overwriteJournal today doc bs ds = appendToJournal today doc bs"
        using ne single by (simp add: overwriteJournal_def Let_def H_def)
      have D: "overwriteTargets today bs ds = []" "appendTargets bs = []"
        using False single by (simp_all add: overwriteTargets_def appendTargets_def H_def)
      have "keepsRun (\<lambda>l. \<not> isEntryOrBlank l) (appendTargets bs) S doc"
        using st' _ assms [unfolded D, folded st_def] unfolding D by (rule keepsRun_weaken) simp
      from keepsRun_appendToJournal [OF this, of today] show ?thesis
        unfolding o by (rule keepsRun_sublist)
    next
      case True
      then have o: "overwriteJournal today doc bs ds = overwriteSingleDate today doc bs H"
        using ne single by (simp add: overwriteJournal_def Let_def H_def)
      have D: "overwriteTargets today bs ds = [H]"
        using True single by (simp add: overwriteTargets_def H_def)
      note k = assms [unfolded D, folded st_def]
      show ?thesis
      proof (cases "hasDateHeader doc H")
        case has: True
        have "keepsRun st [H] S (overwriteSingleDate today doc bs H)"
          using _ _ Hp(3) _ k has by (rule keepsRun_overwrite_inplace) (simp_all add: st_def)
        then show ?thesis unfolding o by (rule keepsRun_sublist)
      next
        case False
        then have "findIndex (\<lambda>line. trim line = H) (split doc) = None"
          by (auto simp: findIndex_None hasDateHeader_def list_ex_iff)
        then have a: "overwriteSingleDate today doc bs H = appendToJournal today doc (H # bs)"
          by (simp add: overwriteSingleDate_def)
        have "set (keysInOrder (H # bs)) \<subseteq> {H}"
          using keysInOrder_single [OF single] Hp(2) by simp
        with groupDates_subset [of "H # bs"] have "set (appendTargets (H # bs)) \<subseteq> set [H]"
          by (auto simp: appendTargets_def)
        with st' have "keepsRun (\<lambda>l. \<not> isEntryOrBlank l) (appendTargets (H # bs)) S doc"
          using k by (rule keepsRun_weaken)
        from keepsRun_appendToJournal [OF this, of today] show ?thesis
          unfolding o a by (rule keepsRun_sublist)
      qed
    qed
  qed
qed

lemma untouched_runs_kept:
  assumes "split doc = pre @ S @ post"
  shows "untouchedRun (\<lambda>l. \<not> isEntryOrBlank l) (appendTargets payload) pre S post
           \<longrightarrow> sublist S (split (appendToJournal today doc payload))"
    and "untouchedRun (\<lambda>l. isDateKey (trim l)) (overwriteTargets today payload datesToOverwrite) pre S post
           \<longrightarrow> sublist S (split (overwriteJournal today doc payload datesToOverwrite))"
proof -
  show "untouchedRun (\<lambda>l. \<not> isEntryOrBlank l) (appendTargets payload) pre S post
           \<longrightarrow> sublist S (split (appendToJournal today doc payload))"
  proof
    assume "untouchedRun (\<lambda>l. \<not> isEntryOrBlank l) (appendTargets payload) pre S post"
    with assms have "keepsRun (\<lambda>l. \<not> isEntryOrBlank l) (appendTargets payload) S doc"
      unfolding keepsRun_def by blast
    from keepsRun_appendToJournal [OF this, of today]
    show "sublist S (split (appendToJournal today doc payload))" by (rule keepsRun_sublist)
  qed
  show "untouchedRun (\<lambda>l. isDateKey (trim l)) (overwriteTargets today payload datesToOverwrite) pre S post
           \<longrightarrow> sublist S (split (overwriteJournal today doc payload datesToOverwrite))"
  proof
    assume "untouchedRun (\<lambda>l. isDateKey (trim l)) (overwriteTargets today payload datesToOverwrite) pre S post"
    with assms have "keepsRun (\<lambda>l. isDateKey (trim l)) (overwriteTargets today payload datesToOverwrite) S doc"
      unfolding keepsRun_def by blast
    then show "sublist S (split (overwriteJournal today doc payload datesToOverwrite))"
      by (rule sublist_overwriteJournal)
  qed
qed

lemma sublist_join:
  assumes "sublist S (split out)" and "S \<noteq> []"
  shows "sublist (join S) out"
proof -
  from assms(1) obtain A B where s: "split out = A @ S @ B" unfolding sublist_def by blast
  have o: "out = join (A @ S @ B)" using join_split [of out] s by simp
  have SB: "join (S @ B) = join S @ (if B = [] then [] else NL # join B)"
    using assms(2) by (simp add: join_append)
  have "join (A @ S @ B) = (if A = [] then [] else join A @ [NL]) @ join (S @ B)"
    using assms(2) by (simp add: join_append)
  then have "out = (if A = [] then [] else join A @ [NL]) @ join S @ (if B = [] then [] else NL # join B)"
    unfolding o SB .
  then show ?thesis unfolding sublist_def by blast
qed

lemma subseq_insert_middle: "subseq (A @ B) (A @ X @ B)"
proof -
  have "subseq B (X @ B)" by (rule subseq_drop_many) simp
  then show ?thesis by (simp add: subseq_append')
qed

lemma mergeSection_subseq:
  assumes "r \<noteq> []"
  shows "subseq (split r) (split (mergeSection r g))"
proof -
  obtain d es where g: "g = (d, es)" by (cases g)
  show ?thesis
  proof (cases "es = []")
    case True
    then show ?thesis by (simp add: g mergeSection_def)
  next
    case False
    show ?thesis
    proof (cases "hasDateHeader r d")
      case no: False
      then have "mergeSection r g = r @ NL # (NL # (d @ [NL] @ join es))"
        using False assms by (simp add: g mergeSection_def)
      then have "split (mergeSection r g) = split r @ split (NL # (d @ [NL] @ join es))"
        by (simp only: split_append_NL)
      then show ?thesis by (simp only: subseq_rev_drop_many [OF subseq_order.refl])
    next
      case True
      then have "\<not> (\<forall>x\<in>set (split r). trim x \<noteq> d)" by (auto simp: hasDateHeader_def list_ex_iff)
      then obtain i where i: "findIndex (\<lambda>line. trim line = d) (split r) = Some i"
        using findIndex_None [of "\<lambda>line. trim line = d" "split r"]
        by (cases "findIndex (\<lambda>line. trim line = d) (split r)") auto
      define k where "k = i + 1 + length (takeWhile (\<lambda>l. startsWith l (str ''- '') \<or> trim l = []) (drop (i + 1) (split r)))"
      have m: "mergeSection r g = join (take k (split r) @ es @ drop k (split r))"
        using True False i by (simp add: g mergeSection_def Let_def k_def)
      have nl: "\<forall>l\<in>set (take k (split r)). NL \<notin> set l" "\<forall>l\<in>set (drop k (split r)). NL \<notin> set l"
        by (auto dest!: in_set_takeD in_set_dropD split_lines_noNL)
      have "split (mergeSection r g)
            = concat (map split (take k (split r))) @ concat (map split es) @ concat (map split (drop k (split r)))"
        unfolding m using False by (simp add: split_join_concat)
      also have "\<dots> = take k (split r) @ concat (map split es) @ drop k (split r)"
        using nl by (simp add: concat_split_lines)
      finally have "split (mergeSection r g) = take k (split r) @ concat (map split es) @ drop k (split r)" .
      moreover have "subseq (take k (split r) @ drop k (split r))
                            (take k (split r) @ concat (map split es) @ drop k (split r))"
        by (rule subseq_insert_middle)
      ultimately show ?thesis by simp
    qed
  qed
qed

lemma subseq_split_nonempty: "r \<noteq> [] \<Longrightarrow> subseq (split r) (split r') \<Longrightarrow> r' \<noteq> []"
proof
  assume r: "r \<noteq> []" and s: "subseq (split r) (split r')" and "r' = []"
  then have "subseq (split r) [[]]" by simp
  then have "length (split r) \<le> 1" using list_emb_length by fastforce
  moreover have "\<forall>l\<in>set (split r). l = []"
    using \<open>subseq (split r) [[]]\<close> by (metis empty_iff empty_set set_ConsD subseq_order.dual_order.trans subseq_singleton_left)
  ultimately have "split r = [] \<or> split r = [[]]"
    by (cases "split r") auto
  with r show False by (simp add: split_Nil_iff)
qed

lemma foldl_mergeSection_subseq:
  "r \<noteq> [] \<Longrightarrow> subseq (split r) (split (foldl mergeSection r de))"
proof (induction de arbitrary: r)
  case Nil
  then show ?case by simp
next
  case (Cons g de)
  have s: "subseq (split r) (split (mergeSection r g))" using Cons.prems by (rule mergeSection_subseq)
  with Cons.prems have "mergeSection r g \<noteq> []" by (rule subseq_split_nonempty)
  from Cons.IH [OF this] s show ?case using subseq_order.trans by auto
qed

lemma keepsLines_mergeMultiDateContent: "keepsLines doc (mergeMultiDateContent doc bs)"
  unfolding keepsLines_def mergeMultiDateContent_def
  using foldl_mergeSection_subseq [of "trim doc"] by auto

lemma keepsLines_appendToJournal: "keepsLines doc (appendToJournal today doc bs)"
proof (cases "bs = []")
  case True
  then show ?thesis by (simp add: keepsLines_def appendToJournal_def)
next
  case ne: False
  show ?thesis
  proof (cases "hasMultipleDates bs")
    case True
    with ne show ?thesis by (simp add: appendToJournal_def keepsLines_mergeMultiDateContent)
  next
    case single: False
    show ?thesis
    proof (cases "trim doc = []")
      case True
      then show ?thesis by (simp add: keepsLines_def)
    next
      case tne: False
      have "\<exists>Y. appendToJournal today doc bs = trim doc @ NL # Y"
      proof (cases "hasDateHeader doc (formatDateHeader today)")
        case True
        then show ?thesis using ne single tne trim_not_endsWith_NL [of doc]
          by (simp add: appendToJournal_def Let_def)
      next
        case False
        then show ?thesis using ne single tne by (simp add: appendToJournal_def Let_def)
      qed
      then obtain Y where "appendToJournal today doc bs = trim doc @ NL # Y" by blast
      then have "split (appendToJournal today doc bs) = split (trim doc) @ split Y"
        by (simp only: split_append_NL)
      then have "subseq (split (trim doc)) (split (appendToJournal today doc bs))"
        by (simp only: subseq_rev_drop_many [OF subseq_order.refl])
      then show ?thesis by (simp add: keepsLines_def)
    qed
  qed
qed

section \<open>Overwrite with nothing selected against append\<close>

text \<open>
  C1. The claim: for a multi-date bullet list, \<open>overwriteJournal\<close> with no date to overwrite
  gives the output of \<open>appendToJournal\<close>. On a payload whose only header keeps no bullet
  (the bullet \<open>"- "\<close> trims to \<open>"-"\<close> and is dropped) and a document that ends in a newline,
  append returns the trimmed document and overwrite returns the document as it is.
  (By \<open>overwrite_nothing_against_append\<close> the two outputs differ in nothing but white space
  at the ends, and are the same as soon as one group keeps a bullet or the document has no
  white space at its ends.)
\<close>

theorem C1_overwrite_nothing_differs_from_append:
  "hasMultipleDates [str ''9.21.2025'', str ''- '']
   \<and> appendToJournal sunday_21_9_2025 (str ''9.20.2025\<newline>- keep\<newline>'') [str ''9.21.2025'', str ''- '']
       = str ''9.20.2025\<newline>- keep''
   \<and> overwriteJournal sunday_21_9_2025 (str ''9.20.2025\<newline>- keep\<newline>'') [str ''9.21.2025'', str ''- ''] []
       = str ''9.20.2025\<newline>- keep\<newline>''"
  by code_simp


section \<open>Overwriting a section\<close>

text \<open>
  C2. Let the group \<open>(date, events)\<close> have its date among the dates to overwrite and at
  least one entry. If the document has a line that trims to the date, its lines split as
  \<open>pre @ h # body @ rest\<close>, where \<open>h\<close> is the first line that trims to the date, \<open>body\<close> holds
  no header line and \<open>rest\<close> is empty or begins with a header line; the round of the
  overwrite loop for the group then returns \<open>pre @ h # events @ rest\<close>, joined: the whole
  body is replaced by the new entries. If no line trims to the date, the round is the
  append of the group, a new section after the trimmed document. For a payload of one
  group the entry point \<open>overwriteJournal\<close> is that round, and the example of the
  specification comes out as stated.
\<close>

theorem C2_overwrite_replaces_section_body:
  assumes "date \<in> set datesToOverwrite" and "events \<noteq> []"
  shows
    "(split result = pre @ h # body @ rest \<and> trim h = date \<and> list_all (\<lambda>l. trim l \<noteq> date) pre \<and>
      list_all (\<lambda>l. \<not> isDateKey (trim l)) body \<and> (rest = [] \<or> isDateKey (trim (hd rest)))
      \<longrightarrow> overwriteSection today datesToOverwrite result (date, events) = join (pre @ h # events @ rest))
     \<and> (hasDateHeader result date \<longrightarrow>
          (\<exists>pre h body rest.
             split result = pre @ h # body @ rest \<and> trim h = date \<and> list_all (\<lambda>l. trim l \<noteq> date) pre \<and>
             list_all (\<lambda>l. \<not> isDateKey (trim l)) body \<and> (rest = [] \<or> isDateKey (trim (hd rest)))))
     \<and> (isDateKey date \<and> okBullets events \<and> \<not> hasDateHeader result date
          \<longrightarrow> overwriteSection today datesToOverwrite result (date, events)
                = appendToJournal today result (date # events)
              \<and> appendToJournal today result (date # events)
                = (if trim result \<noteq> [] then trim result @ [NL, NL] else []) @ date @ [NL] @ join events)
     \<and> (isDateKey date \<and> okBullets events
          \<longrightarrow> overwriteJournal today result (date # events) datesToOverwrite
                = overwriteSection today datesToOverwrite result (date, events))
     \<and> overwriteJournal today (str ''9.21.2025\<newline>- old1\<newline>- old2\<newline>9.20.2025\<newline>- keep'')
          [str ''9.21.2025'', str ''- new1''] [str ''9.21.2025'']
        = str ''9.21.2025\<newline>- new1\<newline>9.20.2025\<newline>- keep''"
proof -
  have step: "overwriteSection today datesToOverwrite result (date, events)
              = overwriteSingleDate today result events date"
    using assms by (simp add: overwriteSection_def)
  have a: "split result = pre @ h # body @ rest \<and> trim h = date \<and> list_all (\<lambda>l. trim l \<noteq> date) pre \<and>
      list_all (\<lambda>l. \<not> isDateKey (trim l)) body \<and> (rest = [] \<or> isDateKey (trim (hd rest)))
      \<longrightarrow> overwriteSection today datesToOverwrite result (date, events) = join (pre @ h # events @ rest)"
    unfolding step by (auto simp: list_all_iff intro!: overwriteSingleDate_existing)
  have b: "hasDateHeader result date \<longrightarrow>
          (\<exists>pre h body rest.
             split result = pre @ h # body @ rest \<and> trim h = date \<and> list_all (\<lambda>l. trim l \<noteq> date) pre \<and>
             list_all (\<lambda>l. \<not> isDateKey (trim l)) body \<and> (rest = [] \<or> isDateKey (trim (hd rest))))"
    using section_decomposition by blast
  have c: "isDateKey date \<and> okBullets events \<and> \<not> hasDateHeader result date
          \<longrightarrow> overwriteSection today datesToOverwrite result (date, events)
                = appendToJournal today result (date # events)
              \<and> appendToJournal today result (date # events)
                = (if trim result \<noteq> [] then trim result @ [NL, NL] else []) @ date @ [NL] @ join events"
    unfolding step using overwriteSingleDate_missing [of date events result today] assms(2) by blast
  have d: "isDateKey date \<and> okBullets events
          \<longrightarrow> overwriteJournal today result (date # events) datesToOverwrite
                = overwriteSection today datesToOverwrite result (date, events)"
    by (simp add: overwriteJournal_def hasMultipleDates_Cons overwriteMultiDateContent_def
        parseBullets_single del: parseBullets.simps)
  have e: "overwriteJournal today (str ''9.21.2025\<newline>- old1\<newline>- old2\<newline>9.20.2025\<newline>- keep'')
          [str ''9.21.2025'', str ''- new1''] [str ''9.21.2025'']
        = str ''9.21.2025\<newline>- new1\<newline>9.20.2025\<newline>- keep''"
    by code_simp
  from a b c d e show ?thesis by blast
qed

theorem C2_overwrite_replaces_section_body_witness:
  "overwriteSection sunday_21_9_2025 [str ''9.19.2025'', str ''9.21.2025'']
     (str ''notes\<newline>9.21.2025\<newline>- old1\<newline>remark\<newline>\<newline>9.20.2025\<newline>- keep'')
     (str ''9.21.2025'', [str ''- new1'', str ''- new2''])
   = str ''notes\<newline>9.21.2025\<newline>- new1\<newline>- new2\<newline>9.20.2025\<newline>- keep''
   \<and> overwriteSection sunday_21_9_2025 [str ''9.19.2025'', str ''9.21.2025'']
     (str ''9.20.2025\<newline>- keep\<newline>'') (str ''9.21.2025'', [str ''- new1'', str ''- new2''])
   = str ''9.20.2025\<newline>- keep\<newline>\<newline>9.21.2025\<newline>- new1\<newline>- new2''"
proof -
  define D where "D = [str ''9.19.2025'', str ''9.21.2025'']"
  define d where "d = str ''9.21.2025''"
  define es where "es = [str ''- new1'', str ''- new2'']"
  have h1: "d \<in> set D" unfolding d_def D_def by code_simp
  have h2: "es \<noteq> []" by (simp add: es_def)
  define doc where "doc = str ''notes\<newline>9.21.2025\<newline>- old1\<newline>remark\<newline>\<newline>9.20.2025\<newline>- keep''"
  have p: "split doc = [str ''notes''] @ str ''9.21.2025'' # [str ''- old1'', str ''remark'', []] @ [str ''9.20.2025'', str ''- keep'']
      \<and> trim (str ''9.21.2025'') = d \<and> list_all (\<lambda>l. trim l \<noteq> d) [str ''notes''] \<and>
      list_all (\<lambda>l. \<not> isDateKey (trim l)) [str ''- old1'', str ''remark'', []] \<and>
      ([str ''9.20.2025'', str ''- keep''] = [] \<or> isDateKey (trim (hd [str ''9.20.2025'', str ''- keep''])))"
    unfolding doc_def d_def by code_simp
  have j: "join ([str ''notes''] @ str ''9.21.2025'' # es @ [str ''9.20.2025'', str ''- keep''])
      = str ''notes\<newline>9.21.2025\<newline>- new1\<newline>- new2\<newline>9.20.2025\<newline>- keep''"
    unfolding es_def by code_simp
  define doc2 where "doc2 = str ''9.20.2025\<newline>- keep\<newline>''"
  have q: "isDateKey d \<and> okBullets es \<and> \<not> hasDateHeader doc2 d"
    unfolding d_def es_def doc2_def by code_simp
  have k: "(if trim doc2 \<noteq> [] then trim doc2 @ [NL, NL] else []) @ d @ [NL] @ join es
     = str ''9.20.2025\<newline>- keep\<newline>\<newline>9.21.2025\<newline>- new1\<newline>- new2''"
    unfolding d_def es_def doc2_def by code_simp
  from C2_overwrite_replaces_section_body [OF h1 h2, of doc "[str ''notes'']" "str ''9.21.2025''"
      "[str ''- old1'', str ''remark'', []]" "[str ''9.20.2025'', str ''- keep'']" sunday_21_9_2025] p j
  have r1: "overwriteSection sunday_21_9_2025 D doc (d, es)
      = str ''notes\<newline>9.21.2025\<newline>- new1\<newline>- new2\<newline>9.20.2025\<newline>- keep''"
    by simp
  from C2_overwrite_replaces_section_body [OF h1 h2, of doc2 _ _ _ _ sunday_21_9_2025] q k
  have r2: "overwriteSection sunday_21_9_2025 D doc2 (d, es)
      = str ''9.20.2025\<newline>- keep\<newline>\<newline>9.21.2025\<newline>- new1\<newline>- new2''"
    by simp
  from r1 r2 show ?thesis unfolding D_def d_def es_def doc_def doc2_def by blast
qed


section \<open>The shape of a normalized date\<close>

text \<open>
  C3. The claim: the normalizer returns a key of the shape \<open>M.D.YYYY\<close> or fails. A month
  name with a day and a year written with a leading zero is answered with a year of fewer
  than four digits, because that branch prints \<open>parseInt\<close> of the year. By lemma
  \<open>normalizeDateFormat_shape\<close> this is the only way to a result that is not a date key
  while the clock is valid.
\<close>

theorem C3_month_name_year_loses_leading_zero:
  "normalizeDateFormat sunday_21_9_2025 (str ''September 19 0999'') = Some (str ''9.19.999'')
   \<and> \<not> isDateKey (str ''9.19.999'')"
  by code_simp

section \<open>Weekday names\<close>

text \<open>
  C4. The claim: a bare weekday name that is today's weekday resolves to today. The code
  adds 7 whenever the difference of the weekday numbers is not positive, so on Sunday
  21 September 2025 the name "sunday" resolves to 14 September, not to the 21st.
\<close>

theorem C4_weekday_today_is_a_week_back_counterexample:
  "getDay sunday_21_9_2025 = 0 \<and> dayNames ! 0 = str ''sunday''
   \<and> formatDateHeader sunday_21_9_2025 = str ''9.21.2025''
   \<and> normalizeDateFormat sunday_21_9_2025 (str ''sunday'') = Some (str ''9.14.2025'')
   \<and> normalizeDateFormat sunday_21_9_2025 (str ''sunday'') \<noteq> Some (formatDateHeader sunday_21_9_2025)"
proof -
  have a: "getDay sunday_21_9_2025 = 0 \<and> dayNames ! 0 = str ''sunday''
    \<and> formatDateHeader sunday_21_9_2025 = str ''9.21.2025''" by code_simp
  have w: "str ''sunday'' \<in> set (weekdaySpellings 0)" by code_simp
  have k: "bareDaysBack sunday_21_9_2025 0 = 7" by code_simp
  have d: "daysBefore 7 sunday_21_9_2025 = \<lparr>getFullYear = 2025, getMonth = 8, getDate = 14, getDay = 0\<rparr>"
    by (simp add: sunday_21_9_2025_def daysBefore_eval)
  have f: "fmtDate \<lparr>getFullYear = 2025, getMonth = 8, getDate = 14, getDay = 0\<rparr> = str ''9.14.2025''"
    by code_simp
  have n: "str ''9.14.2025'' \<noteq> str ''9.21.2025''" by code_simp
  have "normalizeDateFormat sunday_21_9_2025 (str ''sunday'') = Some (str ''9.14.2025'')"
    using normalize_weekday(1) [OF _ w, of sunday_21_9_2025] by (simp add: k d f)
  with a n show ?thesis by simp
qed

text \<open>
  C4, amended. For every weekday (index \<open>i\<close> below 7) in either spelling and every current
  date, the bare name resolves to the date \<open>bareDaysBack today i\<close> days before today, which
  is 7 days when the name is today's weekday and between 1 and 7 days always; the name
  after "last " resolves to the date 7 days before the resolution of the bare name.
\<close>

theorem C4_weekday_resolution:
  assumes "i < 7" and "w \<in> set (weekdaySpellings i)"
  shows "normalizeDateFormat today w = Some (fmtDate (daysBefore (bareDaysBack today i) today))
       \<and> normalizeDateFormat today (str ''last '' @ w)
         = Some (fmtDate (daysBefore (bareDaysBack today i + 7) today))
       \<and> daysBefore (bareDaysBack today i + 7) today = daysBefore 7 (daysBefore (bareDaysBack today i) today)
       \<and> (getDay today = i \<longrightarrow> bareDaysBack today i = 7)
       \<and> (getDay today < 7 \<longrightarrow> 1 \<le> bareDaysBack today i \<and> bareDaysBack today i \<le> 7)"
proof -
  have "getDay today = i \<longrightarrow> bareDaysBack today i = 7" by (simp add: bareDaysBack_def)
  moreover have "getDay today < 7 \<longrightarrow> 1 \<le> bareDaysBack today i \<and> bareDaysBack today i \<le> 7"
    using assms(1) by (auto simp: bareDaysBack_def)
  ultimately show ?thesis
    using normalize_weekday [OF assms, of today] daysBefore_add [of "bareDaysBack today i" 7 today]
    by blast
qed

theorem C4_weekday_resolution_witness:
  "(3::nat) < 7 \<and> dayNames ! 3 = str ''wednesday'' \<and> getDay sunday_21_9_2025 = 0
   \<and> bareDaysBack sunday_21_9_2025 3 = 4
   \<and> normalizeDateFormat sunday_21_9_2025 (str ''Wednesday'') = Some (str ''9.17.2025'')
   \<and> normalizeDateFormat sunday_21_9_2025 (str ''last Wednesday'') = Some (str ''9.10.2025'')"
proof -
  have h1: "(3::nat) < 7" by simp
  have h2: "str ''Wednesday'' \<in> set (weekdaySpellings 3)" by code_simp
  have e: "dayNames ! 3 = str ''wednesday'' \<and> getDay sunday_21_9_2025 = 0
     \<and> bareDaysBack sunday_21_9_2025 3 = 4
     \<and> str ''last '' @ str ''Wednesday'' = str ''last Wednesday''"
    by code_simp
  have d: "daysBefore 4 sunday_21_9_2025 = \<lparr>getFullYear = 2025, getMonth = 8, getDate = 17, getDay = 3\<rparr>"
      "daysBefore 11 sunday_21_9_2025 = \<lparr>getFullYear = 2025, getMonth = 8, getDate = 10, getDay = 3\<rparr>"
    by (simp_all add: sunday_21_9_2025_def daysBefore_eval)
  have f: "fmtDate \<lparr>getFullYear = 2025, getMonth = 8, getDate = 17, getDay = 3\<rparr> = str ''9.17.2025''"
      "fmtDate \<lparr>getFullYear = 2025, getMonth = 8, getDate = 10, getDay = 3\<rparr> = str ''9.10.2025''"
    by code_simp+
  from C4_weekday_resolution [OF h1 h2, of sunday_21_9_2025] e h1 d f show ?thesis by simp
qed


section \<open>Append keeps the order of the sections\<close>

text \<open>
  C5. The claim: for every document and every sequence of groups, a group whose date has
  no section is put at the end of the document as a new section. An entry is written as
  it is, and may hold a line break. When the line after the break is a date header, the
  entry brings a header line into the document: below, the group of 9.20.2025 has an
  entry whose second line is \<open>9.19.2025\<close>, the merge of the next group takes that line for
  the section of 9.19.2025, and the group of 9.19.2025, which had no section in the
  document, ends up before the section of 9.18.2025 and not at the end.
\<close>

theorem C5_entry_with_header_line_counterexample:
  "groupsOf [str ''9.20.2025'', str ''- a\<newline>9.19.2025'', str ''9.19.2025'', str ''- b'']
     = [(str ''9.20.2025'', [str ''- a\<newline>9.19.2025'']), (str ''9.19.2025'', [str ''- b''])]
   \<and> headers (str ''9.20.2025\<newline>- x\<newline>9.18.2025\<newline>- y'') = [str ''9.20.2025'', str ''9.18.2025'']
   \<and> appendToJournal sunday_21_9_2025 (str ''9.20.2025\<newline>- x\<newline>9.18.2025\<newline>- y'')
        [str ''9.20.2025'', str ''- a\<newline>9.19.2025'', str ''9.19.2025'', str ''- b'']
     = str ''9.20.2025\<newline>- x\<newline>- a\<newline>9.19.2025\<newline>- b\<newline>9.18.2025\<newline>- y''
   \<and> headers (appendToJournal sunday_21_9_2025 (str ''9.20.2025\<newline>- x\<newline>9.18.2025\<newline>- y'')
        [str ''9.20.2025'', str ''- a\<newline>9.19.2025'', str ''9.19.2025'', str ''- b''])
     = [str ''9.20.2025'', str ''9.19.2025'', str ''9.18.2025'']"
  by code_simp

text \<open>
  C5, amended. Take a payload that names a date and in which no bullet line of a group
  holds a line that is a date header. The parse loop builds the groups of the payload:
  the dates in the order in which the payload first names them, each with the bullet
  lines under its header lines. The header lines of the output of \<open>appendToJournal\<close> are
  then the header lines of the document, in their order, followed by the dates of the
  groups that keep a bullet line and have no section in the document, in the order of
  the groups. So no existing section moves and every new section is put after all that
  was there, in group order. Appending the group of 9.21.2025 and then the group of
  9.20.2025 to the empty document (in two calls or in one) puts 9.21.2025 before
  9.20.2025.
\<close>

theorem C5_append_keeps_section_order:
  assumes "hasMultipleDates payload" and "list_all (\<lambda>e. headers e = []) (writtenLines payload)"
  shows
    "headers (appendToJournal today doc payload) =
       headers doc @ filter (\<lambda>d. d \<notin> set (headers doc)) (groupDates payload)
     \<and> appendToJournal today doc payload = foldl mergeSection (trim doc) (groupsOf payload)
     \<and> appendToJournal today (appendToJournal today [] [str ''9.21.2025'', str ''- A''])
          [str ''9.20.2025'', str ''- B'']
        = str ''9.21.2025\<newline>- A\<newline>\<newline>9.20.2025\<newline>- B''
     \<and> appendToJournal today [] [str ''9.21.2025'', str ''- A'', str ''9.20.2025'', str ''- B'']
        = str ''9.21.2025\<newline>- A\<newline>\<newline>9.20.2025\<newline>- B''"
proof -
  from assms(1) have ne: "payload \<noteq> []" by (auto simp: hasMultipleDates_def)
  have m: "appendToJournal today doc payload = mergeMultiDateContent doc payload"
    using assms(1) ne by (simp add: appendToJournal_def)
  have a: "headers (appendToJournal today doc payload) =
       headers doc @ filter (\<lambda>d. d \<notin> set (headers doc)) (groupDates payload)"
    unfolding m using okGroups_written [OF assms] by (rule headers_mergeMultiDateContent)
  have g: "appendToJournal today doc payload = foldl mergeSection (trim doc) (groupsOf payload)"
    unfolding m by (simp add: mergeMultiDateContent_def parseBullets_groupsOf)
  have b: "appendToJournal today (appendToJournal today [] [str ''9.21.2025'', str ''- A''])
          [str ''9.20.2025'', str ''- B'']
        = str ''9.21.2025\<newline>- A\<newline>\<newline>9.20.2025\<newline>- B''"
    by code_simp
  have c: "appendToJournal today [] [str ''9.21.2025'', str ''- A'', str ''9.20.2025'', str ''- B'']
        = str ''9.21.2025\<newline>- A\<newline>\<newline>9.20.2025\<newline>- B''"
    by code_simp
  from a g b c show ?thesis by blast
qed

theorem C5_append_keeps_section_order_witness:
  "hasMultipleDates [str ''note'', str ''9.18.2025'', str ''  - A\<newline>  more '', str ''9.22.2025'', str ''- C'',
      str ''9.19.2025'', str ''9.25.2025'', str ''- D'', str ''9.20.2025'', str ''- B'', str ''9.18.2025'', str ''- E'']
   \<and> writtenLines [str ''note'', str ''9.18.2025'', str ''  - A\<newline>  more '', str ''9.22.2025'', str ''- C'',
      str ''9.19.2025'', str ''9.25.2025'', str ''- D'', str ''9.20.2025'', str ''- B'', str ''9.18.2025'', str ''- E'']
     = [str ''- A\<newline>  more'', str ''- E'', str ''- C'', str ''- D'', str ''- B'']
   \<and> list_all (\<lambda>e. headers e = []) [str ''- A\<newline>  more'', str ''- E'', str ''- C'', str ''- D'', str ''- B'']
   \<and> groupDates [str ''note'', str ''9.18.2025'', str ''  - A\<newline>  more '', str ''9.22.2025'', str ''- C'',
      str ''9.19.2025'', str ''9.25.2025'', str ''- D'', str ''9.20.2025'', str ''- B'', str ''9.18.2025'', str ''- E'']
     = [str ''9.18.2025'', str ''9.22.2025'', str ''9.25.2025'', str ''9.20.2025'']
   \<and> headers (str '' 9.23.2025\<newline>- x\<newline>\<newline>9.22.2025 \<newline>- y\<newline>'') = [str ''9.23.2025'', str ''9.22.2025'']
   \<and> headers (appendToJournal sunday_21_9_2025 (str '' 9.23.2025\<newline>- x\<newline>\<newline>9.22.2025 \<newline>- y\<newline>'')
        [str ''note'', str ''9.18.2025'', str ''  - A\<newline>  more '', str ''9.22.2025'', str ''- C'',
         str ''9.19.2025'', str ''9.25.2025'', str ''- D'', str ''9.20.2025'', str ''- B'', str ''9.18.2025'', str ''- E''])
     = [str ''9.23.2025'', str ''9.22.2025'', str ''9.18.2025'', str ''9.25.2025'', str ''9.20.2025'']
   \<and> appendToJournal sunday_21_9_2025 (str '' 9.23.2025\<newline>- x\<newline>\<newline>9.22.2025 \<newline>- y\<newline>'')
        [str ''note'', str ''9.18.2025'', str ''  - A\<newline>  more '', str ''9.22.2025'', str ''- C'',
         str ''9.19.2025'', str ''9.25.2025'', str ''- D'', str ''9.20.2025'', str ''- B'', str ''9.18.2025'', str ''- E'']
     = str ''9.23.2025\<newline>- x\<newline>\<newline>9.22.2025 \<newline>- y\<newline>\<newline>- C\<newline>9.18.2025\<newline>- A\<newline>  more\<newline>- E\<newline>\<newline>9.25.2025\<newline>- D\<newline>\<newline>9.20.2025\<newline>- B''"
proof -
  define bs where "bs = [str ''note'', str ''9.18.2025'', str ''  - A\<newline>  more '', str ''9.22.2025'', str ''- C'',
      str ''9.19.2025'', str ''9.25.2025'', str ''- D'', str ''9.20.2025'', str ''- B'', str ''9.18.2025'', str ''- E'']"
  define doc where "doc = str '' 9.23.2025\<newline>- x\<newline>\<newline>9.22.2025 \<newline>- y\<newline>''"
  have h1: "hasMultipleDates bs" unfolding bs_def by code_simp
  have w: "writtenLines bs = [str ''- A\<newline>  more'', str ''- E'', str ''- C'', str ''- D'', str ''- B'']"
    unfolding bs_def by code_simp
  have h2: "list_all (\<lambda>e. headers e = []) [str ''- A\<newline>  more'', str ''- E'', str ''- C'', str ''- D'', str ''- B'']"
    by code_simp
  have g: "groupDates bs = [str ''9.18.2025'', str ''9.22.2025'', str ''9.25.2025'', str ''9.20.2025'']"
    unfolding bs_def by code_simp
  have h3: "headers doc = [str ''9.23.2025'', str ''9.22.2025'']" unfolding doc_def by code_simp
  have e: "headers doc @ filter (\<lambda>d. d \<notin> set (headers doc)) (groupDates bs)
      = [str ''9.23.2025'', str ''9.22.2025'', str ''9.18.2025'', str ''9.25.2025'', str ''9.20.2025'']"
    unfolding h3 g by code_simp
  have o: "appendToJournal sunday_21_9_2025 doc bs
     = str ''9.23.2025\<newline>- x\<newline>\<newline>9.22.2025 \<newline>- y\<newline>\<newline>- C\<newline>9.18.2025\<newline>- A\<newline>  more\<newline>- E\<newline>\<newline>9.25.2025\<newline>- D\<newline>\<newline>9.20.2025\<newline>- B''"
    unfolding doc_def bs_def by code_simp
  from h2 have h2': "list_all (\<lambda>e. headers e = []) (writtenLines bs)" by (simp only: w)
  from C5_append_keeps_section_order [OF h1 h2', of sunday_21_9_2025 doc, THEN conjunct1] e
  have "headers (appendToJournal sunday_21_9_2025 doc bs)
     = [str ''9.23.2025'', str ''9.22.2025'', str ''9.18.2025'', str ''9.25.2025'', str ''9.20.2025'']" by simp
  with h1 w h2 g h3 o show ?thesis unfolding bs_def doc_def by blast
qed

section \<open>What is not targeted stays\<close>




section \<open>No header is duplicated\<close>




section \<open>The entry points and the clock\<close>

text \<open>
  C9. The claim: two runs on the same document and the same bullet list give the same
  output. With a bullet list that holds no date header the entry points read the clock
  (\<open>formatDateHeader\<close>): the same call on Sunday 21 September 2025 and on the Monday after
  it gives different documents, and different affected dates.
\<close>

theorem C9_same_inputs_different_days_counterexample:
  "appendToJournal sunday_21_9_2025 [] [str ''- a''] = str ''9.21.2025\<newline>- a''
   \<and> appendToJournal monday_22_9_2025 [] [str ''- a''] = str ''9.22.2025\<newline>- a''
   \<and> appendToJournal sunday_21_9_2025 [] [str ''- a''] \<noteq> appendToJournal monday_22_9_2025 [] [str ''- a'']
   \<and> overwriteJournal sunday_21_9_2025 [] [str ''- a''] [] \<noteq> overwriteJournal monday_22_9_2025 [] [str ''- a''] []
   \<and> getAffectedDates sunday_21_9_2025 [str ''- a''] \<noteq> getAffectedDates monday_22_9_2025 [str ''- a'']"
  by code_simp

text \<open>
  C9, amended. The outputs of \<open>appendToJournal\<close>, \<open>overwriteJournal\<close> and \<open>getAffectedDates\<close>
  on the same document, bullet list and dates to overwrite are the same in two runs when
  the bullet list holds a date header, or when the clock shows the same date header in
  both runs; with an empty bullet list the first two return the document on any day.
  (\<open>getExistingDates\<close> takes no clock.)
\<close>

theorem C9_output_fixed_by_inputs_and_date:
  assumes "hasMultipleDates newBullets \<or> formatDateHeader today1 = formatDateHeader today2"
  shows "appendToJournal today1 doc newBullets = appendToJournal today2 doc newBullets
       \<and> overwriteJournal today1 doc newBullets datesToOverwrite
         = overwriteJournal today2 doc newBullets datesToOverwrite
       \<and> getAffectedDates today1 newBullets = getAffectedDates today2 newBullets
       \<and> appendToJournal today1 doc [] = appendToJournal today2 doc []
       \<and> overwriteJournal today1 doc [] datesToOverwrite = overwriteJournal today2 doc [] datesToOverwrite"
proof -
  have e: "appendToJournal today1 doc [] = appendToJournal today2 doc []
       \<and> overwriteJournal today1 doc [] datesToOverwrite = overwriteJournal today2 doc [] datesToOverwrite"
    by (simp add: appendToJournal_def overwriteJournal_def)
  from assms show ?thesis
  proof
    assume m: "hasMultipleDates newBullets"
    have "\<forall>d\<in>set (map fst (parseBullets [] [] newBullets)). isDateKey d"
      by (rule keys_parseBullets) simp
    then have "overwriteMultiDateContent today1 doc newBullets datesToOverwrite
             = overwriteMultiDateContent today2 doc newBullets datesToOverwrite"
      unfolding overwriteMultiDateContent_def by (rule foldl_overwriteSection_clock)
    with m e show ?thesis
      by (simp add: appendToJournal_multi_clock overwriteJournal_def getAffectedDates_def)
  next
    assume "formatDateHeader today1 = formatDateHeader today2"
    from same_header_clock [OF this] e show ?thesis by simp
  qed
qed

theorem C9_output_fixed_by_inputs_and_date_witness:
  "hasMultipleDates [str ''9.21.2025'', str ''- a'']
   \<and> appendToJournal sunday_21_9_2025 (str ''9.21.2025\<newline>- x'') [str ''9.21.2025'', str ''- a'']
     = appendToJournal monday_22_9_2025 (str ''9.21.2025\<newline>- x'') [str ''9.21.2025'', str ''- a'']
   \<and> overwriteJournal sunday_21_9_2025 (str ''9.21.2025\<newline>- x'') [str ''9.21.2025'', str ''- a''] [str ''9.21.2025'']
     = overwriteJournal monday_22_9_2025 (str ''9.21.2025\<newline>- x'') [str ''9.21.2025'', str ''- a''] [str ''9.21.2025'']
   \<and> getAffectedDates sunday_21_9_2025 [str ''9.21.2025'', str ''- a'']
     = getAffectedDates monday_22_9_2025 [str ''9.21.2025'', str ''- a'']"
proof -
  have h: "hasMultipleDates [str ''9.21.2025'', str ''- a'']" by code_simp
  then have "hasMultipleDates [str ''9.21.2025'', str ''- a'']
     \<or> formatDateHeader sunday_21_9_2025 = formatDateHeader monday_22_9_2025" by (rule disjI1)
  from C9_output_fixed_by_inputs_and_date [OF this, of "str ''9.21.2025\<newline>- x''" "[str ''9.21.2025'']"] h
  show ?thesis by blast
qed


section \<open>Payload lines that are kept, and those that are dropped\<close>

text \<open>
  C10. Every entry of every group that \<open>parseBullets\<close> builds is the trimmed form of a
  payload line that begins with \<open>"- "\<close> and stands after some date header, and every key is
  a date key. The merge and the overwrite engine use the payload through these groups
  only, and skip the groups without entries. So a payload line that is neither a header
  nor a bullet, or a bullet before the first header, can be deleted from the payload
  without changing the output of either engine; and when the group of a date keeps no
  bullet, all header lines of that date can be deleted from the payload without changing
  the output. A payload with a date header reaches these engines through the entry
  points.
\<close>

theorem C10_payload_lines_retained_or_discarded:
  "(\<forall>(d, es)\<in>set (parseBullets [] [] payload). isDateKey d \<and> (\<forall>e\<in>set es. retainedFrom payload e))
   \<and> mergeMultiDateContent doc payload
       = foldl mergeSection (trim doc) (filter (\<lambda>(d, es). es \<noteq> []) (parseBullets [] [] payload))
   \<and> overwriteMultiDateContent today doc payload ds
       = foldl (overwriteSection today ds) doc (filter (\<lambda>(d, es). es \<noteq> []) (parseBullets [] [] payload))
   \<and> (\<not> isDateKey (trim b) \<and>
        (\<not> startsWith (trim b) (str ''- '') \<or> \<not> list_ex (\<lambda>h. isDateKey (trim h)) xs)
        \<longrightarrow> mergeMultiDateContent doc (xs @ b # ys) = mergeMultiDateContent doc (xs @ ys)
          \<and> overwriteMultiDateContent today doc (xs @ b # ys) ds
            = overwriteMultiDateContent today doc (xs @ ys) ds)
   \<and> (isDateKey d \<and> (\<forall>es. (d, es) \<in> set (parseBullets [] [] payload) \<longrightarrow> es = [])
        \<longrightarrow> mergeMultiDateContent doc (filter (\<lambda>b. trim b \<noteq> d) payload) = mergeMultiDateContent doc payload
          \<and> overwriteMultiDateContent today doc (filter (\<lambda>b. trim b \<noteq> d) payload) ds
            = overwriteMultiDateContent today doc payload ds)
   \<and> (hasMultipleDates payload
        \<longrightarrow> appendToJournal today doc payload = mergeMultiDateContent doc payload
          \<and> overwriteJournal today doc payload ds = overwriteMultiDateContent today doc payload ds)"
proof -
  have keys: "\<forall>k\<in>set (map fst (parseBullets [] [] payload)). isDateKey k"
    by (rule keys_parseBullets) simp
  have ret: "\<forall>(d, es)\<in>set (parseBullets [] [] payload). \<forall>e\<in>set es. retainedFrom ([] @ payload) e"
    by (rule retained_parseBullets) simp_all
  have a: "\<forall>(d, es)\<in>set (parseBullets [] [] payload). isDateKey d \<and> (\<forall>e\<in>set es. retainedFrom payload e)"
    using keys ret by fastforce
  have b1: "mergeMultiDateContent doc payload
       = foldl mergeSection (trim doc) (filter (\<lambda>(d, es). es \<noteq> []) (parseBullets [] [] payload))"
    unfolding mergeMultiDateContent_def
    by (rule foldl_skip_empty [symmetric]) (rule mergeSection_empty)
  have b2: "overwriteMultiDateContent today doc payload ds
       = foldl (overwriteSection today ds) doc (filter (\<lambda>(d, es). es \<noteq> []) (parseBullets [] [] payload))"
    unfolding overwriteMultiDateContent_def
    by (rule foldl_skip_empty [symmetric]) (rule overwriteSection_empty)
  have c: "\<not> isDateKey (trim b) \<and>
        (\<not> startsWith (trim b) (str ''- '') \<or> \<not> list_ex (\<lambda>h. isDateKey (trim h)) xs)
        \<longrightarrow> mergeMultiDateContent doc (xs @ b # ys) = mergeMultiDateContent doc (xs @ ys)
          \<and> overwriteMultiDateContent today doc (xs @ b # ys) ds
            = overwriteMultiDateContent today doc (xs @ ys) ds"
  proof
    assume h: "\<not> isDateKey (trim b) \<and>
        (\<not> startsWith (trim b) (str ''- '') \<or> \<not> list_ex (\<lambda>h. isDateKey (trim h)) xs)"
    then have "parseBullets [] [] (xs @ b # ys) = parseBullets [] [] (xs @ ys)"
      by (intro parseBullets_discard) auto
    then show "mergeMultiDateContent doc (xs @ b # ys) = mergeMultiDateContent doc (xs @ ys)
          \<and> overwriteMultiDateContent today doc (xs @ b # ys) ds
            = overwriteMultiDateContent today doc (xs @ ys) ds"
      by (simp add: mergeMultiDateContent_def overwriteMultiDateContent_def)
  qed
  have d: "isDateKey d \<and> (\<forall>es. (d, es) \<in> set (parseBullets [] [] payload) \<longrightarrow> es = [])
        \<longrightarrow> mergeMultiDateContent doc (filter (\<lambda>b. trim b \<noteq> d) payload) = mergeMultiDateContent doc payload
          \<and> overwriteMultiDateContent today doc (filter (\<lambda>b. trim b \<noteq> d) payload) ds
            = overwriteMultiDateContent today doc payload ds"
  proof
    assume h: "isDateKey d \<and> (\<forall>es. (d, es) \<in> set (parseBullets [] [] payload) \<longrightarrow> es = [])"
    then have p: "parseBullets [] [] (filter (\<lambda>b. trim b \<noteq> d) payload)
         = filter (\<lambda>g. fst g \<noteq> d) (parseBullets [] [] payload)"
      by (intro parseBullets_without_key) auto
    have "foldl mergeSection (trim doc) (filter (\<lambda>g. fst g \<noteq> d) (parseBullets [] [] payload))
          = foldl mergeSection (trim doc) (parseBullets [] [] payload)"
      using h by (intro foldl_skip_key mergeSection_empty) auto
    moreover have "foldl (overwriteSection today ds) doc (filter (\<lambda>g. fst g \<noteq> d) (parseBullets [] [] payload))
          = foldl (overwriteSection today ds) doc (parseBullets [] [] payload)"
      using h by (intro foldl_skip_key overwriteSection_empty) auto
    ultimately show "mergeMultiDateContent doc (filter (\<lambda>b. trim b \<noteq> d) payload) = mergeMultiDateContent doc payload
          \<and> overwriteMultiDateContent today doc (filter (\<lambda>b. trim b \<noteq> d) payload) ds
            = overwriteMultiDateContent today doc payload ds"
      by (simp add: mergeMultiDateContent_def overwriteMultiDateContent_def p)
  qed
  have e: "hasMultipleDates payload
        \<longrightarrow> appendToJournal today doc payload = mergeMultiDateContent doc payload
          \<and> overwriteJournal today doc payload ds = overwriteMultiDateContent today doc payload ds"
    by (auto simp: appendToJournal_def overwriteJournal_def hasMultipleDates_def)
  from a b1 b2 c d e show ?thesis by blast
qed

theorem C10_payload_lines_retained_or_discarded_witness:
  "parseBullets [] [] [str ''note'', str ''- early'', str ''9.21.2025'', str '' - A '', str ''x'',
                       str ''9.19.2025'', str ''9.20.2025'', str ''- B'']
     = [(str ''9.21.2025'', [str ''- A'']), (str ''9.19.2025'', []), (str ''9.20.2025'', [str ''- B''])]
   \<and> mergeMultiDateContent (str ''9.18.2025\<newline>- k'')
        [str ''note'', str ''- early'', str ''9.21.2025'', str '' - A '', str ''x'',
         str ''9.19.2025'', str ''9.20.2025'', str ''- B'']
     = mergeMultiDateContent (str ''9.18.2025\<newline>- k'')
        [str ''note'', str ''9.21.2025'', str '' - A '', str ''x'', str ''9.19.2025'', str ''9.20.2025'', str ''- B'']
   \<and> mergeMultiDateContent (str ''9.18.2025\<newline>- k'')
        (filter (\<lambda>b. trim b \<noteq> str ''9.19.2025'')
          [str ''note'', str ''- early'', str ''9.21.2025'', str '' - A '', str ''x'',
           str ''9.19.2025'', str ''9.20.2025'', str ''- B''])
     = mergeMultiDateContent (str ''9.18.2025\<newline>- k'')
        [str ''note'', str ''- early'', str ''9.21.2025'', str '' - A '', str ''x'',
         str ''9.19.2025'', str ''9.20.2025'', str ''- B'']
   \<and> mergeMultiDateContent (str ''9.18.2025\<newline>- k'')
        [str ''note'', str ''- early'', str ''9.21.2025'', str '' - A '', str ''x'',
         str ''9.19.2025'', str ''9.20.2025'', str ''- B'']
     = str ''9.18.2025\<newline>- k\<newline>\<newline>9.21.2025\<newline>- A\<newline>\<newline>9.20.2025\<newline>- B''"
proof -
  define p where "p = [str ''note'', str ''- early'', str ''9.21.2025'', str '' - A '', str ''x'',
                       str ''9.19.2025'', str ''9.20.2025'', str ''- B'']"
  define doc where "doc = str ''9.18.2025\<newline>- k''"
  have e: "parseBullets [] [] p
     = [(str ''9.21.2025'', [str ''- A'']), (str ''9.19.2025'', []), (str ''9.20.2025'', [str ''- B''])]
     \<and> mergeMultiDateContent doc p
       = str ''9.18.2025\<newline>- k\<newline>\<newline>9.21.2025\<newline>- A\<newline>\<newline>9.20.2025\<newline>- B''"
    unfolding p_def doc_def by code_simp
  have h1: "\<not> isDateKey (trim (str ''- early'')) \<and>
        (\<not> startsWith (trim (str ''- early'')) (str ''- '') \<or> \<not> list_ex (\<lambda>h. isDateKey (trim h)) [str ''note''])"
    by code_simp
  define R where "R = [str ''9.21.2025'', str '' - A '', str ''x'', str ''9.19.2025'', str ''9.20.2025'', str ''- B'']"
  have sp: "[str ''note''] @ str ''- early'' # R = p" "[str ''note''] @ R = str ''note'' # R"
    by (simp_all add: p_def R_def)
  have h2: "isDateKey (str ''9.19.2025'')" by code_simp
  have h3: "\<forall>es. (str ''9.19.2025'', es) \<in> set (parseBullets [] [] p) \<longrightarrow> es = []"
  proof -
    have "str ''9.19.2025'' \<noteq> str ''9.21.2025''" "str ''9.19.2025'' \<noteq> str ''9.20.2025''" by code_simp+
    with e show ?thesis by auto
  qed
  note T = C10_payload_lines_retained_or_discarded [of p doc sunday_21_9_2025 "[]" "str ''- early''"
      "[str ''note'']" R "str ''9.19.2025''"]
  from T h1 have "mergeMultiDateContent doc ([str ''note''] @ str ''- early'' # R)
      = mergeMultiDateContent doc ([str ''note''] @ R)" by blast
  then have d1: "mergeMultiDateContent doc p = mergeMultiDateContent doc (str ''note'' # R)"
    by (simp only: sp)
  from T h2 h3 have d2: "mergeMultiDateContent doc (filter (\<lambda>b. trim b \<noteq> str ''9.19.2025'') p)
      = mergeMultiDateContent doc p" by blast
  from e d1 d2 show ?thesis unfolding p_def doc_def R_def by blast
qed


end
